theory Spec2Isabelle
  imports Main "HOL-Library.List_Lexorder" "HOL-Library.Sublist" "HOL-Library.Multiset"
begin

section \<open>Strings, runes and the Unicode tables used by qmp-shell.go\<close>

text \<open>
  A Go string is a byte sequence holding UTF-8 text; \<^verbatim>\<open>range\<close>,
  \<^verbatim>\<open>strings.FieldsFunc\<close>, \<^verbatim>\<open>strings.Fields\<close> and
  \<^verbatim>\<open>strings.ToLower\<close> read it rune by rune. The model represents a string
  by the sequence of its code points (a \<^verbatim>\<open>rune\<close> is an \<^verbatim>\<open>int32\<close>;
  decoded code points are never negative), which is exact for well-formed UTF-8 text.
  Where the source counts bytes (\<^verbatim>\<open>len(s)\<close>) the model adds up the UTF-8
  widths of the runes; where it reads the first byte and compares it with an ASCII
  character (\<^verbatim>\<open>s[0] == '{'\<close>) the model reads the first rune, which is the same
  test on well-formed text.
\<close>

type_synonym rune = nat
type_synonym gostring = "rune list"

definition runes :: "string \<Rightarrow> gostring" where
  "runes s = map of_char s"

text \<open>\<^verbatim>\<open>utf8.RuneLen\<close> for code points, and \<^verbatim>\<open>len(s)\<close> in bytes.\<close>

definition utf8_RuneLen :: "rune \<Rightarrow> nat" where
  "utf8_RuneLen r = (if r < 0x80 then 1 else if r < 0x800 then 2 else if r < 0x10000 then 3 else 4)"

definition len :: "gostring \<Rightarrow> nat" where
  "len s = sum_list (map utf8_RuneLen s)"

text \<open>
  \<^verbatim>\<open>unicode.In(c, unicode.Quotation_Mark)\<close>: the range table of the Go standard
  library (Unicode property Quotation\_Mark).
\<close>

definition Quotation_Mark :: "rune \<Rightarrow> bool" where
  "Quotation_Mark r =
     (r = 0x22 \<or> r = 0x27 \<or> r = 0xAB \<or> r = 0xBB
      \<or> (0x2018 \<le> r \<and> r \<le> 0x201F)
      \<or> (0x2039 \<le> r \<and> r \<le> 0x203A)
      \<or> r = 0x2E42
      \<or> (0x300C \<le> r \<and> r \<le> 0x300F)
      \<or> (0x301D \<le> r \<and> r \<le> 0x301F)
      \<or> (0xFE41 \<le> r \<and> r \<le> 0xFE44)
      \<or> r = 0xFF02 \<or> r = 0xFF07
      \<or> (0xFF62 \<le> r \<and> r \<le> 0xFF63))"

text \<open>
  \<^verbatim>\<open>unicode.IsSpace\<close>: the Latin-1 switch of the standard library, and its
  White\_Space table beyond Latin-1.
\<close>

definition unicode_IsSpace :: "rune \<Rightarrow> bool" where
  "unicode_IsSpace r =
     (if r \<le> 0xFF
      then (r = 0x09 \<or> r = 0x0A \<or> r = 0x0B \<or> r = 0x0C \<or> r = 0x0D \<or> r = 0x20
            \<or> r = 0x85 \<or> r = 0xA0)
      else (r = 0x1680 \<or> (0x2000 \<le> r \<and> r \<le> 0x200A) \<or> r = 0x2028 \<or> r = 0x2029
            \<or> r = 0x202F \<or> r = 0x205F \<or> r = 0x3000))"

section \<open>The tokenizer: \<^verbatim>\<open>splitString\<close>\<close>

text \<open>
  \<^verbatim>\<open>strings.FieldsFunc(s, f)\<close> makes one pass over the runes of \<^verbatim>\<open>s\<close>,
  calling \<^verbatim>\<open>f\<close> once on each rune in order, and cuts \<^verbatim>\<open>s\<close> at the runes
  where \<^verbatim>\<open>f\<close> answers true; a field is a maximal run of runes where it answers
  false. The closure passed by \<^verbatim>\<open>splitString\<close> mutates a captured variable,
  so the model threads that state through the pass: \<open>f st c\<close> returns the answer and
  the new state. \<open>cur\<close> is the field being read (empty: no field is open, the
  library's \<^verbatim>\<open>start < 0\<close>).
\<close>

fun strings_FieldsFunc :: "('s \<Rightarrow> rune \<Rightarrow> bool \<times> 's) \<Rightarrow> 's \<Rightarrow> gostring \<Rightarrow> gostring \<Rightarrow> gostring list" where
  "strings_FieldsFunc f st cur [] = (if cur = [] then [] else [cur])"
| "strings_FieldsFunc f st cur (c # cs) =
     (let (b, st') = f st c in
      if b then (if cur = [] then strings_FieldsFunc f st' [] cs
                 else cur # strings_FieldsFunc f st' [] cs)
      else strings_FieldsFunc f st' (cur @ [c]) cs)"

text \<open>
  The closure \<^verbatim>\<open>f\<close> of \<^verbatim>\<open>splitString\<close> (lines 262-279), with the captured
  \<^verbatim>\<open>lastQuote\<close> as its state; \<^verbatim>\<open>rune(0)\<close> stands for "no quote open".
\<close>

definition splitString_f :: "rune \<Rightarrow> rune \<Rightarrow> rune \<Rightarrow> bool \<times> rune" where
  "splitString_f sep lastQuote c =
     (if c = lastQuote then (False, 0)
      else if lastQuote \<noteq> 0 then (False, lastQuote)
      else if Quotation_Mark c then (False, c)
      else if sep = 0x20 then (unicode_IsSpace c, lastQuote)
      else (c = sep, lastQuote))"

definition splitString :: "gostring \<Rightarrow> rune \<Rightarrow> gostring list" where
  "splitString str sep = strings_FieldsFunc (splitString_f sep) 0 [] str"

text \<open>\<^verbatim>\<open>strings.Fields\<close>: the fields around runs of \<^verbatim>\<open>unicode.IsSpace\<close> runes.\<close>

definition strings_Fields :: "gostring \<Rightarrow> gostring list" where
  "strings_Fields s = strings_FieldsFunc (\<lambda>u c. (unicode_IsSpace c, u)) () [] s"

subsection \<open>The tokenizer as the specification words it\<close>

text \<open>
  Section 4.1 of the specification: a single left-to-right pass in state \<open>Normal\<close> or
  \<open>InsideQuote q\<close>. In \<open>Normal\<close> a separator ends the current token (empty tokens
  are dropped) and a quotation mark opens a quoted span and is kept; in
  \<open>InsideQuote q\<close> only \<open>q\<close> closes the span, and every character is kept.
  \<open>isSep\<close> says which characters separate.
\<close>

datatype qstate = Normal | InsideQuote rune

fun spec_split :: "(rune \<Rightarrow> bool) \<Rightarrow> qstate \<Rightarrow> gostring \<Rightarrow> gostring \<Rightarrow> gostring list" where
  "spec_split isSep st cur [] = (if cur = [] then [] else [cur])"
| "spec_split isSep Normal cur (c # cs) =
     (if isSep c then (if cur = [] then [] else [cur]) @ spec_split isSep Normal [] cs
      else if Quotation_Mark c then spec_split isSep (InsideQuote c) (cur @ [c]) cs
      else spec_split isSep Normal (cur @ [c]) cs)"
| "spec_split isSep (InsideQuote q) cur (c # cs) =
     (if c = q then spec_split isSep Normal (cur @ [c]) cs
      else spec_split isSep (InsideQuote q) (cur @ [c]) cs)"

text \<open>The separator test "the character equals \<open>sep\<close>".\<close>

definition equalsSep :: "rune \<Rightarrow> rune \<Rightarrow> bool" where
  "equalsSep sep c = (c = sep)"

text \<open>The separator test the source applies for \<open>sep\<close>.\<close>

definition sepTest :: "rune \<Rightarrow> rune \<Rightarrow> bool" where
  "sepTest sep c = (if sep = 0x20 then unicode_IsSpace c else c = sep)"

section \<open>Library functions used by the command builder\<close>

text \<open>
  \<^verbatim>\<open>strings.ToLower\<close> maps \<^verbatim>\<open>unicode.ToLower\<close> over the runes.
  \<^verbatim>\<open>unicode.ToLower\<close> lowers ASCII by itself and looks every other code point
  up in the case tables of the standard library (\<^verbatim>\<open>unicode.CaseRanges\<close>); the
  table lookup is the parameter \<open>caseTable\<close>.
\<close>

definition unicode_ToLower :: "(rune \<Rightarrow> rune) \<Rightarrow> rune \<Rightarrow> rune" where
  "unicode_ToLower caseTable r =
     (if r \<le> 0x7F then (if 0x41 \<le> r \<and> r \<le> 0x5A then r + 0x20 else r)
      else caseTable r)"

definition strings_ToLower :: "(rune \<Rightarrow> rune) \<Rightarrow> gostring \<Rightarrow> gostring" where
  "strings_ToLower caseTable s = map (unicode_ToLower caseTable) s"

text \<open>
  \<^verbatim>\<open>strings.Trim(s, cutset)\<close> removes every leading and every trailing rune that
  occurs in \<^verbatim>\<open>cutset\<close>.
\<close>

definition strings_TrimLeft :: "gostring \<Rightarrow> gostring \<Rightarrow> gostring" where
  "strings_TrimLeft s cutset = dropWhile (\<lambda>c. c \<in> set cutset) s"

definition strings_TrimRight :: "gostring \<Rightarrow> gostring \<Rightarrow> gostring" where
  "strings_TrimRight s cutset = rev (dropWhile (\<lambda>c. c \<in> set cutset) (rev s))"

definition strings_Trim :: "gostring \<Rightarrow> gostring \<Rightarrow> gostring" where
  "strings_Trim s cutset = strings_TrimLeft (strings_TrimRight s cutset) cutset"

text \<open>The cutset of line 234: the ASCII double quote and the ASCII single quote.\<close>

definition quoteCutset :: gostring where
  "quoteCutset = [0x22, 0x27]"

text \<open>
  \<^verbatim>\<open>strconv.ParseInt(s, 10, 64)\<close>. The library picks off one leading sign
  (\<^verbatim>\<open>+\<close> or \<^verbatim>\<open>-\<close>), reads the rest with \<^verbatim>\<open>ParseUint\<close> (decimal digits
  only in base 10; an empty string or any other character is a syntax error; a value
  beyond \<^verbatim>\<open>uint64\<close> a range error) and then checks the signed range.
  The unsigned accumulator is a natural number here and the two overflow tests of
  the library (\<^verbatim>\<open>n >= cutoff\<close>, and \<^verbatim>\<open>n1 < n || n1 > maxVal\<close> after the
  wrapping addition) are written out on it.
\<close>

datatype numError = ErrSyntax | ErrRange

definition maxUint64 :: nat where
  "maxUint64 = 2 ^ 64 - 1"

fun parseUint_loop :: "nat \<Rightarrow> gostring \<Rightarrow> numError + nat" where
  "parseUint_loop n [] = Inr n"
| "parseUint_loop n (c # cs) =
     (if 0x30 \<le> c \<and> c \<le> 0x39
      then (if n \<ge> maxUint64 div 10 + 1 then Inl ErrRange
            else (let n1 = n * 10 + (c - 0x30) in
                  if n1 > maxUint64 then Inl ErrRange else parseUint_loop n1 cs))
      else Inl ErrSyntax)"

definition strconv_ParseUint :: "gostring \<Rightarrow> numError + nat" where
  "strconv_ParseUint s = (if s = [] then Inl ErrSyntax else parseUint_loop 0 s)"

definition strconv_ParseInt :: "gostring \<Rightarrow> numError + int" where
  "strconv_ParseInt s =
     (if s = [] then Inl ErrSyntax
      else (let neg = (hd s = 0x2D);
                s1 = (if hd s = 0x2B \<or> hd s = 0x2D then tl s else s)
            in case strconv_ParseUint s1 of
                 Inl e \<Rightarrow> Inl e
               | Inr un \<Rightarrow>
                   if \<not> neg \<and> un \<ge> 2 ^ 63 then Inl ErrRange
                   else if neg \<and> un > 2 ^ 63 then Inl ErrRange
                   else Inr (if neg then - int un else int un)))"

text \<open>
  \<^verbatim>\<open>strings.Index(s, substr)\<close>: the byte offset of the first occurrence, or -1.
\<close>

fun strings_Index_from :: "nat \<Rightarrow> gostring \<Rightarrow> gostring \<Rightarrow> int" where
  "strings_Index_from i [] substr = (if substr = [] then int i else - 1)"
| "strings_Index_from i (c # cs) substr =
     (if prefix substr (c # cs) then int i
      else strings_Index_from (i + utf8_RuneLen c) cs substr)"

definition strings_Index :: "gostring \<Rightarrow> gostring \<Rightarrow> int" where
  "strings_Index s substr = strings_Index_from 0 s substr"

text \<open>
  \<^verbatim>\<open>strings.Split(s, sep)\<close> for a non-empty separator cuts at every occurrence of
  \<^verbatim>\<open>sep\<close>, leftmost first and not overlapping, and keeps empty pieces; with an
  empty separator it explodes the string into its runes.
\<close>

function strings_Split_from :: "gostring \<Rightarrow> gostring \<Rightarrow> gostring \<Rightarrow> gostring list" where
  "strings_Split_from sep cur s =
     (if s = [] then [cur]
      else if sep \<noteq> [] \<and> prefix sep s
           then cur # strings_Split_from sep [] (drop (length sep) s)
      else strings_Split_from sep (cur @ [hd s]) (tl s))"
  by pat_completeness auto
termination
  by (relation "measure (\<lambda>(sep, cur, s). length s)") auto

declare strings_Split_from.simps [simp del]

definition strings_Split :: "gostring \<Rightarrow> gostring \<Rightarrow> gostring list" where
  "strings_Split s sep = (if sep = [] then map (\<lambda>c. [c]) s else strings_Split_from sep [] s)"

definition strings_HasPrefix :: "gostring \<Rightarrow> gostring \<Rightarrow> bool" where
  "strings_HasPrefix s pre = prefix pre s"

text \<open>
  \<^verbatim>\<open>sort.Strings\<close> sorts into increasing order of Go's string comparison, which
  compares bytes; on UTF-8 text that is the lexicographic order of the code points.
  The result of sorting by a linear order does not depend on the algorithm.
\<close>

definition sort_Strings :: "gostring list \<Rightarrow> gostring list" where
  "sort_Strings xs = sort xs"

section \<open>The command builder: \<^verbatim>\<open>buildQMPCommand\<close>\<close>

text \<open>
  The values stored in \<^verbatim>\<open>map[string]interface{}\<close>: a \<^verbatim>\<open>bool\<close>, an
  \<^verbatim>\<open>int64\<close>, whatever \<^verbatim>\<open>json.Unmarshal\<close> decoded (type \<open>'j\<close>), or a string.
\<close>

datatype 'j argval = VBool bool | VInteger int | VStructured 'j | VString gostring

text \<open>
  What a call can end with instead of a result: the package's one error value
  \<^verbatim>\<open>ErrBadCommandFormat\<close>, an error made by \<^verbatim>\<open>fmt.Errorf\<close> (with its
  message), or a run-time panic "index out of range", which no \<^verbatim>\<open>recover\<close>
  catches.
\<close>

datatype error = ErrBadCommandFormat | Errorf gostring | PanicIndexOutOfRange

record 'j QMPCommand =
  Name :: gostring
  Arguments :: "gostring \<rightharpoonup> 'j argval"

text \<open>
  The \<^verbatim>\<open>switch\<close> of lines 236-254 on the trimmed value \<open>v\<close>. \<open>unmarshal\<close> is
  \<^verbatim>\<open>json.Unmarshal\<close> into an \<^verbatim>\<open>interface{}\<close> (its error message, or the decoded
  value); \<open>out\<close> is what has been written to standard output so far, and
  \<^verbatim>\<open>fmt.Println\<close> appends its argument and a newline. Indexing the empty string
  on line 241 panics.
\<close>

definition buildQMPCommand_switch ::
  "(rune \<Rightarrow> rune) \<Rightarrow> (gostring \<Rightarrow> gostring + 'j) \<Rightarrow> gostring \<Rightarrow> gostring
     \<Rightarrow> gostring \<times> (error + 'j argval)" where
  "buildQMPCommand_switch caseTable unmarshal out v =
     (if strings_ToLower caseTable v = runes ''true'' then (out, Inr (VBool True))
      else if strings_ToLower caseTable v = runes ''false'' then (out, Inr (VBool False))
      else if v = [] then (out, Inl PanicIndexOutOfRange)
      else if hd v = 0x7B \<or> hd v = 0x5B
      then (let out1 = out @ v @ [0x0A] in
            case unmarshal v of
              Inl msg \<Rightarrow> (out1, Inl (Errorf (runes ''JSON parsing error: '' @ msg)))
            | Inr val \<Rightarrow> (out1, Inr (VStructured val)))
      else (case strconv_ParseInt v of
              Inr d \<Rightarrow> (out, Inr (VInteger d))
            | Inl e \<Rightarrow> (out, Inr (VString v))))"

text \<open>The loop of lines 227-255 over \<^verbatim>\<open>cmdargs[1:]\<close>, threading the output and the map.\<close>

fun buildQMPCommand_loop ::
  "(rune \<Rightarrow> rune) \<Rightarrow> (gostring \<Rightarrow> gostring + 'j) \<Rightarrow> gostring \<Rightarrow> (gostring \<rightharpoonup> 'j argval)
     \<Rightarrow> gostring list \<Rightarrow> gostring \<times> (error + (gostring \<rightharpoonup> 'j argval))" where
  "buildQMPCommand_loop caseTable unmarshal out m [] = (out, Inr m)"
| "buildQMPCommand_loop caseTable unmarshal out m (arg # rest) =
     (let parts = splitString arg 0x3D in
      if length parts \<noteq> 2 \<or> len (parts ! 1) = 0 then (out, Inl ErrBadCommandFormat)
      else (case buildQMPCommand_switch caseTable unmarshal out (strings_Trim (parts ! 1) quoteCutset) of
              (out1, Inl e) \<Rightarrow> (out1, Inl e)
            | (out1, Inr val) \<Rightarrow>
                buildQMPCommand_loop caseTable unmarshal out1 (m(parts ! 0 \<mapsto> val)) rest))"

definition buildQMPCommand ::
  "(rune \<Rightarrow> rune) \<Rightarrow> (gostring \<Rightarrow> gostring + 'j) \<Rightarrow> gostring \<Rightarrow> gostring
     \<Rightarrow> gostring \<times> (error + 'j QMPCommand)" where
  "buildQMPCommand caseTable unmarshal out cmdline =
     (let cmdargs = splitString cmdline 0x20 in
      if length cmdargs = 0 then (out, Inl ErrBadCommandFormat)
      else (case buildQMPCommand_loop caseTable unmarshal out Map.empty (tl cmdargs) of
              (out1, Inl e) \<Rightarrow> (out1, Inl e)
            | (out1, Inr m) \<Rightarrow> (out1, Inr \<lparr>Name = hd cmdargs, Arguments = m\<rparr>)))"

text \<open>
  Lines 192-199 of \<^verbatim>\<open>executeCommand\<close>: the line handed to the builder (wrapped by
  \<^verbatim>\<open>fmt.Sprintf\<close> in HMP mode), and the command that is built from it and then
  passed to the monitor, or the error returned instead.
\<close>

definition executeCommand_cmdline :: "bool \<Rightarrow> gostring \<Rightarrow> gostring" where
  "executeCommand_cmdline isHMP cmdline =
     (if isHMP then runes ''human-monitor-command command-line='' @ [0x27] @ cmdline @ [0x27]
      else cmdline)"

definition executeCommand_cmd ::
  "bool \<Rightarrow> (rune \<Rightarrow> rune) \<Rightarrow> (gostring \<Rightarrow> gostring + 'j) \<Rightarrow> gostring \<Rightarrow> gostring
     \<Rightarrow> gostring \<times> (error + 'j QMPCommand)" where
  "executeCommand_cmd isHMP caseTable unmarshal out cmdline =
     buildQMPCommand caseTable unmarshal out (executeCommand_cmdline isHMP cmdline)"

section \<open>The completion list of \<^verbatim>\<open>NewHMPShell\<close>\<close>

text \<open>
  Lines 315-324: the name kept for a command whose help line contains a
  \<^verbatim>\<open>|\<close>. \<^verbatim>\<open>nn[1]\<close> panics when the split has one piece only.
\<close>

definition helpName :: "gostring \<Rightarrow> gostring \<Rightarrow> error + gostring" where
  "helpName line name =
     (if strings_Index line (runes ''|'') \<noteq> - 1
      then (let nn = strings_Split name (runes ''|'') in
            if len (nn ! 0) = 1
            then (if length nn < 2 then Inl PanicIndexOutOfRange else Inr (nn ! 1))
            else Inr (nn ! 0))
      else Inr name)"

text \<open>
  The loop of lines 303-327 over the lines of the reply to \<^verbatim>\<open>help\<close>.
  \<^verbatim>\<open>strings.Fields(line)[0]\<close> panics on a line of white space only.
\<close>

fun helpLoop :: "gostring list \<Rightarrow> gostring list \<Rightarrow> error + gostring list" where
  "helpLoop cmdlist [] = Inr cmdlist"
| "helpLoop cmdlist (line # rest) =
     (if \<not> (len line > 0 \<and> hd line \<noteq> 0x5B \<and> hd line \<noteq> 0x09) then helpLoop cmdlist rest
      else if strings_Fields line = [] then Inl PanicIndexOutOfRange
      else (let name = hd (strings_Fields line) in
            if name = runes ''info'' then helpLoop cmdlist rest
            else (case helpName line name of
                    Inl e \<Rightarrow> Inl e
                  | Inr name1 \<Rightarrow> helpLoop (cmdlist @ [name1, runes ''help '' @ name1]) rest)))"

text \<open>The loop of lines 333-338 over the lines of the reply to \<^verbatim>\<open>info\<close>.\<close>

fun infoLoop :: "gostring list \<Rightarrow> gostring list \<Rightarrow> gostring list" where
  "infoLoop cmdlist [] = cmdlist"
| "infoLoop cmdlist (line # rest) =
     (if \<not> (len line > 0 \<and> length (strings_Fields line) \<ge> 2) then infoLoop cmdlist rest
      else infoLoop (cmdlist @ [runes ''info '' @ strings_Fields line ! 1]) rest)"

text \<open>
  Lines 298-341: \<^verbatim>\<open>cmdlist\<close> as the completer captures it, from the texts of the
  two replies.
\<close>

definition NewHMPShell_cmdlist :: "gostring \<Rightarrow> gostring \<Rightarrow> error + gostring list" where
  "NewHMPShell_cmdlist helpReply infoReply =
     (case helpLoop [] (strings_Split helpReply [0x0D, 0x0A]) of
        Inl e \<Rightarrow> Inl e
      | Inr cmdlist \<Rightarrow> Inr (sort_Strings (infoLoop cmdlist (strings_Split infoReply [0x0D, 0x0A]))))"

text \<open>The completer installed on lines 90-97 and 343-350.\<close>

definition completer :: "(rune \<Rightarrow> rune) \<Rightarrow> gostring list \<Rightarrow> gostring \<Rightarrow> gostring list" where
  "completer caseTable cmdlist line =
     filter (\<lambda>n. strings_HasPrefix n (strings_ToLower caseTable line)) cmdlist"

text \<open>The state of the specification's pass that a value of \<^verbatim>\<open>lastQuote\<close> stands for.\<close>

definition absQuote :: "rune \<Rightarrow> qstate" where
  "absQuote lq = (if lq = 0 then Normal else InsideQuote lq)"

section \<open>The coercion rule as the specification words it\<close>

text \<open>
  Section 4.2, rule 3: the whole string is an optional sign and then one or more
  decimal digits, and the number fits a signed 64-bit integer. The specification
  names \<^verbatim>\<open>-\<close> as the sign; \<open>plusToo\<close> says whether \<^verbatim>\<open>+\<close> is read as a
  sign as well.
\<close>

definition isDigit :: "rune \<Rightarrow> bool" where
  "isDigit c = (0x30 \<le> c \<and> c \<le> 0x39)"

definition digitStep :: "nat \<Rightarrow> rune \<Rightarrow> nat" where
  "digitStep n c = n * 10 + (c - 0x30)"

definition decimalValue :: "gostring \<Rightarrow> nat" where
  "decimalValue ds = foldl digitStep 0 ds"

definition spec_integer :: "bool \<Rightarrow> gostring \<Rightarrow> int option" where
  "spec_integer plusToo s =
     (let neg = (s \<noteq> [] \<and> hd s = 0x2D);
          signed = (s \<noteq> [] \<and> (hd s = 0x2D \<or> (plusToo \<and> hd s = 0x2B)));
          ds = (if signed then tl s else s);
          n = (if neg then - int (decimalValue ds) else int (decimalValue ds))
      in if ds \<noteq> [] \<and> list_all isDigit ds \<and> - (2 ^ 63) \<le> n \<and> n < 2 ^ 63 then Some n else None)"

text \<open>
  Section 4.2, the ordered rule: booleans first (compared after lower-casing), then
  structured data by the first character, then integers, then the literal text.
\<close>

definition spec_coerce ::
  "bool \<Rightarrow> (rune \<Rightarrow> rune) \<Rightarrow> (gostring \<Rightarrow> gostring + 'j) \<Rightarrow> gostring \<Rightarrow> error + 'j argval" where
  "spec_coerce plusToo caseTable unmarshal v =
     (if strings_ToLower caseTable v = runes ''true'' then Inr (VBool True)
      else if strings_ToLower caseTable v = runes ''false'' then Inr (VBool False)
      else if v \<noteq> [] \<and> (hd v = 0x7B \<or> hd v = 0x5B)
      then (case unmarshal v of
              Inl msg \<Rightarrow> Inl (Errorf (runes ''JSON parsing error: '' @ msg))
            | Inr val \<Rightarrow> Inr (VStructured val))
      else (case spec_integer plusToo v of
              Some n \<Rightarrow> Inr (VInteger n)
            | None \<Rightarrow> Inr (VString v)))"

section \<open>Parameters for the examples\<close>

text \<open>
  The examples below are ASCII text, on which \<^verbatim>\<open>unicode.ToLower\<close> never consults
  the case tables; they take the table without entries.
\<close>

definition noCaseTable :: "rune \<Rightarrow> rune" where
  "noCaseTable r = r"

text \<open>
  For \<^verbatim>\<open>json.Unmarshal\<close> the examples take a function that decodes the two texts
  \<^verbatim>\<open>{}\<close> and \<^verbatim>\<open>[]\<close> and reports an error on every other text; the examples
  apply it to \<^verbatim>\<open>{}\<close>, \<^verbatim>\<open>[]\<close> and \<^verbatim>\<open>{bad\<close> only, where
  \<^verbatim>\<open>encoding/json\<close> answers alike.
\<close>

datatype json = JObject "(gostring \<times> json) list" | JArray "json list"

definition exampleUnmarshal :: "gostring \<Rightarrow> gostring + json" where
  "exampleUnmarshal s =
     (if s = runes ''{}'' then Inr (JObject [])
      else if s = runes ''[]'' then Inr (JArray [])
      else Inl (runes ''invalid character''))"

section \<open>Quote stripping as the specification words it\<close>

text \<open>
  Section 4.3, step 4: one layer of wrapping quote characters is stripped, when the
  value starts and ends with the same ASCII quote character.
\<close>

definition spec_stripQuotes :: "gostring \<Rightarrow> gostring" where
  "spec_stripQuotes v =
     (if length v \<ge> 2 \<and> hd v = last v \<and> (hd v = 0x22 \<or> hd v = 0x27) then butlast (tl v) else v)"

text \<open>The two characters of \<open>quoteCutset\<close>.\<close>

definition isQuoteChar :: "rune \<Rightarrow> bool" where
  "isQuoteChar c = (c = 0x22 \<or> c = 0x27)"

section \<open>Argument tokens\<close>

text \<open>
  The key and the trimmed value of an argument token, as lines 228-234 compute them,
  and the shape the claims call well-formed: the token splits on \<^verbatim>\<open>=\<close> into
  exactly two non-empty parts.
\<close>

definition argKey :: "gostring \<Rightarrow> gostring" where
  "argKey arg = splitString arg 0x3D ! 0"

definition argValue :: "gostring \<Rightarrow> gostring" where
  "argValue arg = strings_Trim (splitString arg 0x3D ! 1) quoteCutset"

definition wellFormedArg :: "gostring \<Rightarrow> bool" where
  "wellFormedArg arg =
     (length (splitString arg 0x3D) = 2 \<and> splitString arg 0x3D ! 0 \<noteq> [] \<and> splitString arg 0x3D ! 1 \<noteq> [])"

text \<open>
  What the switch makes of the value of an argument token, and whether that is a
  value (and not an error or a panic).
\<close>

definition coerced :: "(rune \<Rightarrow> rune) \<Rightarrow> (gostring \<Rightarrow> gostring + 'j) \<Rightarrow> gostring \<Rightarrow> error + 'j argval" where
  "coerced caseTable unmarshal arg = snd (buildQMPCommand_switch caseTable unmarshal [] (argValue arg))"

definition accepted :: "(rune \<Rightarrow> rune) \<Rightarrow> (gostring \<Rightarrow> gostring + 'j) \<Rightarrow> gostring \<Rightarrow> bool" where
  "accepted caseTable unmarshal arg = (\<not> isl (coerced caseTable unmarshal arg))"

text \<open>
  The map in which every key of a list of argument tokens has the value of its last
  occurrence.
\<close>

definition argPair :: "(rune \<Rightarrow> rune) \<Rightarrow> (gostring \<Rightarrow> gostring + 'j) \<Rightarrow> gostring \<Rightarrow> gostring \<times> 'j argval" where
  "argPair caseTable unmarshal arg = (argKey arg, projr (coerced caseTable unmarshal arg))"

definition argMap :: "(rune \<Rightarrow> rune) \<Rightarrow> (gostring \<Rightarrow> gostring + 'j) \<Rightarrow> gostring list \<Rightarrow> (gostring \<rightharpoonup> 'j argval)" where
  "argMap caseTable unmarshal args = map_of (rev (map (argPair caseTable unmarshal) args))"

section \<open>Properties of the tokenizer\<close>

lemma IsSpace_not_quote: "unicode_IsSpace c \<Longrightarrow> \<not> Quotation_Mark c"
  by (auto simp: unicode_IsSpace_def Quotation_Mark_def split: if_splits)

lemma Quotation_Mark_nonzero: "Quotation_Mark c \<Longrightarrow> c \<noteq> 0"
  by (auto simp: Quotation_Mark_def)

lemma sepTest_not_quote:
  "sep \<noteq> 0 \<Longrightarrow> \<not> Quotation_Mark sep \<Longrightarrow> sepTest sep c \<Longrightarrow> \<not> Quotation_Mark c \<and> c \<noteq> 0"
  using IsSpace_not_quote[of c] by (cases "sep = 0x20") (auto simp: sepTest_def unicode_IsSpace_def split: if_splits)

lemma FieldsFunc_refines:
  assumes "sep \<noteq> 0" "\<not> Quotation_Mark sep"
  shows "strings_FieldsFunc (splitString_f sep) lq cur s = spec_split (sepTest sep) (absQuote lq) cur s"
  using assms
proof (induction s arbitrary: lq cur)
  case Nil
  then show ?case by simp
next
  case (Cons c cs)
  show ?case
  proof (cases "lq = 0")
    case True
    show ?thesis
    proof (cases "Quotation_Mark c")
      case q: True
      then have "c \<noteq> 0" by (rule Quotation_Mark_nonzero)
      with q True Cons show ?thesis
        using sepTest_not_quote[OF Cons.prems, of c]
        by (auto simp: splitString_f_def absQuote_def)
    next
      case nq: False
      with True Cons show ?thesis
        using sepTest_not_quote[OF Cons.prems, of c]
        by (auto simp: splitString_f_def absQuote_def sepTest_def)
    qed
  next
    case False
    with Cons show ?thesis
      by (auto simp: splitString_f_def absQuote_def)
  qed
qed

lemma splitString_refines:
  "sep \<noteq> 0 \<Longrightarrow> \<not> Quotation_Mark sep \<Longrightarrow> splitString s sep = spec_split (sepTest sep) Normal [] s"
  by (simp add: splitString_def FieldsFunc_refines absQuote_def)

lemma sepTest_space: "sepTest 0x20 = unicode_IsSpace"
  by (rule ext) (simp add: sepTest_def)

lemma sepTest_equals: "sepTest 0x3D = equalsSep 0x3D"
  by (rule ext) (simp add: sepTest_def equalsSep_def)

lemma spec_split_nonempty: "[] \<notin> set (spec_split isSep st cur s)"
  by (induction isSep st cur s rule: spec_split.induct) auto

lemma spec_split_keeps_quotes:
  assumes "\<And>c. isSep c \<Longrightarrow> \<not> Quotation_Mark c"
  shows "filter Quotation_Mark (concat (spec_split isSep st cur s)) = filter Quotation_Mark (cur @ s)"
  using assms by (induction isSep st cur s rule: spec_split.induct) auto

text \<open>
  C5, as amended. With \<^verbatim>\<open>sep = ' '\<close> the tokenizer is the specification's pass
  with "separator" read as any Unicode white-space rune (\<^verbatim>\<open>unicode.IsSpace\<close>:
  tab, newline, no-break space, ..., not the space character alone); with
  \<^verbatim>\<open>sep = '='\<close> it is that same pass with the separator test "equals
  \<^verbatim>\<open>=\<close>". In both uses no token is empty, a quotation mark opens a span that
  only the same code point closes, and every quotation mark of the input is kept, in
  order, in the tokens.
\<close>

theorem splitString_tokenizer:
  "splitString s 0x20 = spec_split unicode_IsSpace Normal [] s
   \<and> splitString s 0x3D = spec_split (equalsSep 0x3D) Normal [] s
   \<and> [] \<notin> set (splitString s 0x20) \<and> [] \<notin> set (splitString s 0x3D)
   \<and> filter Quotation_Mark (concat (splitString s 0x20)) = filter Quotation_Mark s
   \<and> filter Quotation_Mark (concat (splitString s 0x3D)) = filter Quotation_Mark s"
proof -
  have a: "splitString s 0x20 = spec_split unicode_IsSpace Normal [] s"
    using splitString_refines[of "0x20" s] by (simp add: sepTest_space Quotation_Mark_def)
  have b: "splitString s 0x3D = spec_split (equalsSep 0x3D) Normal [] s"
    using splitString_refines[of "0x3D" s] by (simp add: sepTest_equals Quotation_Mark_def)
  have c: "filter Quotation_Mark (concat (spec_split unicode_IsSpace Normal [] s)) = filter Quotation_Mark s"
    using spec_split_keeps_quotes[of unicode_IsSpace Normal "[]" s] IsSpace_not_quote by simp
  have d: "filter Quotation_Mark (concat (spec_split (equalsSep 0x3D) Normal [] s)) = filter Quotation_Mark s"
    using spec_split_keeps_quotes[of "equalsSep 0x3D" Normal "[]" s]
    by (simp add: equalsSep_def Quotation_Mark_def)
  show ?thesis
    by (simp add: a b c d spec_split_nonempty)
qed

text \<open>The specification's example line, and its second argument split on \<^verbatim>\<open>=\<close>.\<close>

theorem splitString_tokenizer_witness:
  "splitString (runes ''set_password protocol=vnc password=\"se cret\"'') 0x20
     = spec_split unicode_IsSpace Normal [] (runes ''set_password protocol=vnc password=\"se cret\"'')
   \<and> splitString (runes ''set_password protocol=vnc password=\"se cret\"'') 0x20
     = [runes ''set_password'', runes ''protocol=vnc'', runes ''password=\"se cret\"'']
   \<and> splitString (runes ''password=\"se cret\"'') 0x3D = [runes ''password'', runes ''\"se cret\"'']"
  using splitString_tokenizer[of "runes ''set_password protocol=vnc password=\"se cret\"''"]
  by (simp add: splitString_def splitString_f_def Quotation_Mark_def unicode_IsSpace_def runes_def)

text \<open>
  C5 as stated fails: with \<^verbatim>\<open>sep = ' '\<close> a tab ends a token, although it is not
  equal to the separator; the specification's pass with the test "equals space"
  keeps \<^verbatim>\<open>a<TAB>b\<close> in one token.
\<close>

theorem splitString_space_counterexample:
  "splitString [0x61, 0x09, 0x62] 0x20 = [[0x61], [0x62]]
   \<and> spec_split (equalsSep 0x20) Normal [] [0x61, 0x09, 0x62] = [[0x61, 0x09, 0x62]]"
  by (simp add: splitString_def splitString_f_def Quotation_Mark_def unicode_IsSpace_def equalsSep_def)

section \<open>Properties of the value switch\<close>

lemma foldl_digitStep_mono: "n \<le> foldl digitStep n ds"
proof (induction ds arbitrary: n)
  case Nil
  show ?case by simp
next
  case (Cons c cs)
  have "n \<le> digitStep n c" by (simp add: digitStep_def)
  also have "\<dots> \<le> foldl digitStep (digitStep n c) cs"
    by (rule Cons.IH)
  finally show ?case by simp
qed

lemma parseUint_loop_Cons:
  "parseUint_loop n (c # cs) =
     (if isDigit c
      then (if n \<ge> maxUint64 div 10 + 1 then Inl ErrRange
            else if digitStep n c > maxUint64 then Inl ErrRange
            else parseUint_loop (digitStep n c) cs)
      else Inl ErrSyntax)"
  by (simp add: isDigit_def digitStep_def Let_def)

lemma cutoff_overflows: "n \<ge> maxUint64 div 10 + 1 \<Longrightarrow> digitStep n c > maxUint64"
  by (simp add: maxUint64_def digitStep_def)

lemma parseUint_loop_Inr:
  assumes "n \<le> maxUint64"
  shows "parseUint_loop n ds = Inr m \<longleftrightarrow>
     list_all isDigit ds \<and> foldl digitStep n ds \<le> maxUint64 \<and> m = foldl digitStep n ds"
  using assms
proof (induction ds arbitrary: n)
  case Nil
  then show ?case by auto
next
  case (Cons c cs)
  have mono: "digitStep n c \<le> foldl digitStep (digitStep n c) cs"
    by (rule foldl_digitStep_mono)
  show ?case
  proof (cases "isDigit c")
    case False
    then show ?thesis by (simp only: parseUint_loop_Cons) simp
  next
    case dig: True
    show ?thesis
    proof (cases "digitStep n c > maxUint64")
      case True
      with mono have "\<not> foldl digitStep (digitStep n c) cs \<le> maxUint64" by simp
      with True dig show ?thesis by (simp only: parseUint_loop_Cons) simp
    next
      case False
      then have "\<not> n \<ge> maxUint64 div 10 + 1" using cutoff_overflows[of n c] by auto
      moreover from False have "digitStep n c \<le> maxUint64" by simp
      ultimately show ?thesis using False dig Cons.IH[of "digitStep n c"]
        by (simp only: parseUint_loop_Cons) simp
    qed
  qed
qed

lemma ParseUint_Inr:
  "strconv_ParseUint s = Inr m \<longleftrightarrow>
     s \<noteq> [] \<and> list_all isDigit s \<and> decimalValue s \<le> maxUint64 \<and> m = decimalValue s"
  by (simp add: strconv_ParseUint_def decimalValue_def parseUint_loop_Inr)

lemma ParseUint_Inl:
  "strconv_ParseUint s = Inl e \<Longrightarrow> \<not> (s \<noteq> [] \<and> list_all isDigit s \<and> decimalValue s \<le> maxUint64)"
  using ParseUint_Inr[of s "decimalValue s"] by auto

lemma below_cutoff_fits: "n \<le> 2 ^ 63 \<Longrightarrow> n \<le> maxUint64"
  by (simp add: maxUint64_def)

lemma ParseInt_Inr_minus:
  "strconv_ParseInt (0x2D # r) = Inr d \<longleftrightarrow>
     r \<noteq> [] \<and> list_all isDigit r \<and> decimalValue r \<le> 2 ^ 63 \<and> d = - int (decimalValue r)"
proof (cases "strconv_ParseUint r")
  case (Inl e)
  from ParseUint_Inl[OF Inl] below_cutoff_fits[of "decimalValue r"]
  have "\<not> (r \<noteq> [] \<and> list_all isDigit r \<and> decimalValue r \<le> 2 ^ 63)" by blast
  then show ?thesis by (auto simp: strconv_ParseInt_def Inl)
next
  case (Inr un)
  then have "r \<noteq> []" "list_all isDigit r" "un = decimalValue r"
    using ParseUint_Inr[of r un] by auto
  then show ?thesis by (auto simp: strconv_ParseInt_def Inr)
qed

lemma ParseInt_Inr_plus:
  "strconv_ParseInt (0x2B # r) = Inr d \<longleftrightarrow>
     r \<noteq> [] \<and> list_all isDigit r \<and> decimalValue r < 2 ^ 63 \<and> d = int (decimalValue r)"
proof (cases "strconv_ParseUint r")
  case (Inl e)
  from ParseUint_Inl[OF Inl] below_cutoff_fits[of "decimalValue r"]
  have "\<not> (r \<noteq> [] \<and> list_all isDigit r \<and> decimalValue r < 2 ^ 63)" by auto
  then show ?thesis by (auto simp: strconv_ParseInt_def Inl)
next
  case (Inr un)
  then have "r \<noteq> []" "list_all isDigit r" "un = decimalValue r"
    using ParseUint_Inr[of r un] by auto
  then show ?thesis by (auto simp: strconv_ParseInt_def Inr)
qed

lemma ParseInt_Inr_unsigned:
  assumes "s \<noteq> []" "hd s \<noteq> 0x2B" "hd s \<noteq> 0x2D"
  shows "strconv_ParseInt s = Inr d \<longleftrightarrow>
     list_all isDigit s \<and> decimalValue s < 2 ^ 63 \<and> d = int (decimalValue s)"
proof (cases "strconv_ParseUint s")
  case (Inl e)
  from ParseUint_Inl[OF Inl] below_cutoff_fits[of "decimalValue s"] assms
  have "\<not> (list_all isDigit s \<and> decimalValue s < 2 ^ 63)" by auto
  then show ?thesis using assms by (auto simp: strconv_ParseInt_def Inl)
next
  case (Inr un)
  then have "list_all isDigit s" "un = decimalValue s"
    using ParseUint_Inr[of s un] by auto
  then show ?thesis using assms by (auto simp: strconv_ParseInt_def Inr)
qed

lemma spec_integer_minus:
  "spec_integer plusToo (0x2D # r) = Some d \<longleftrightarrow>
     r \<noteq> [] \<and> list_all isDigit r \<and> decimalValue r \<le> 2 ^ 63 \<and> d = - int (decimalValue r)"
  by (auto simp: spec_integer_def)

lemma spec_integer_plus:
  "spec_integer True (0x2B # r) = Some d \<longleftrightarrow>
     r \<noteq> [] \<and> list_all isDigit r \<and> decimalValue r < 2 ^ 63 \<and> d = int (decimalValue r)"
  by (auto simp: spec_integer_def)

lemma spec_integer_unsigned:
  assumes "s \<noteq> []" "hd s \<noteq> 0x2B" "hd s \<noteq> 0x2D"
  shows "spec_integer plusToo s = Some d \<longleftrightarrow>
     list_all isDigit s \<and> decimalValue s < 2 ^ 63 \<and> d = int (decimalValue s)"
  using assms by (auto simp: spec_integer_def)

lemma ParseInt_spec: "strconv_ParseInt s = Inr d \<longleftrightarrow> spec_integer True s = Some d"
proof (cases s)
  case Nil
  then show ?thesis by (simp add: strconv_ParseInt_def spec_integer_def)
next
  case (Cons c r)
  consider "c = 0x2D" | "c = 0x2B" | "c \<noteq> 0x2D" "c \<noteq> 0x2B" by blast
  then show ?thesis
  proof cases
    case 1
    show ?thesis unfolding Cons 1 ParseInt_Inr_minus spec_integer_minus ..
  next
    case 2
    show ?thesis unfolding Cons 2 ParseInt_Inr_plus spec_integer_plus ..
  next
    case 3
    then have "s \<noteq> []" "hd s \<noteq> 0x2B" "hd s \<noteq> 0x2D" by (simp_all add: Cons)
    then show ?thesis
      using ParseInt_Inr_unsigned[of s d] spec_integer_unsigned[of s True d] by simp
  qed
qed

lemma switch_empty_panics:
  "buildQMPCommand_switch caseTable unmarshal out [] = (out, Inl PanicIndexOutOfRange)"
  by (simp add: buildQMPCommand_switch_def strings_ToLower_def runes_def)

text \<open>
  C1, as amended. For every non-empty raw value (after the quotes were trimmed) the
  switch decides by ordered first match: equal to \<^verbatim>\<open>true\<close> or \<^verbatim>\<open>false\<close>
  after lower-casing, a boolean; else first character \<^verbatim>\<open>{\<close> or \<^verbatim>\<open>[\<close>, the
  decoded JSON value, or an error carrying the decoder's message; else, when the
  whole string is an optional leading \<^verbatim>\<open>+\<close> or \<^verbatim>\<open>-\<close> and decimal digits
  within the signed 64-bit range, that integer; otherwise the unmodified text.
  The empty value is left out: there line 241 panics (\<open>switch_empty_panics\<close>).
\<close>

theorem buildQMPCommand_switch_rule:
  assumes ne: "v \<noteq> []"
  shows "snd (buildQMPCommand_switch caseTable unmarshal out v) = spec_coerce True caseTable unmarshal v"
proof (cases "strings_ToLower caseTable v = runes ''true''")
  case True
  then show ?thesis by (simp add: buildQMPCommand_switch_def spec_coerce_def)
next
  case nt: False
  show ?thesis
  proof (cases "strings_ToLower caseTable v = runes ''false''")
    case True
    with nt show ?thesis by (simp add: buildQMPCommand_switch_def spec_coerce_def)
  next
    case nf: False
    show ?thesis
    proof (cases "hd v = 0x7B \<or> hd v = 0x5B")
      case True
      with nt nf ne show ?thesis
        by (cases "unmarshal v") (simp_all add: buildQMPCommand_switch_def spec_coerce_def Let_def)
    next
      case False
      have sw: "buildQMPCommand_switch caseTable unmarshal out v =
                  (case strconv_ParseInt v of
                     Inr d \<Rightarrow> (out, Inr (VInteger d))
                   | Inl e \<Rightarrow> (out, Inr (VString v)))"
        using nt nf ne False by (simp add: buildQMPCommand_switch_def)
      have sp: "spec_coerce True caseTable unmarshal v =
                  (case spec_integer True v of
                     Some n \<Rightarrow> Inr (VInteger n)
                   | None \<Rightarrow> Inr (VString v))"
        using nt nf ne False by (simp add: spec_coerce_def)
      show ?thesis
      proof (cases "strconv_ParseInt v")
        case (Inr d)
        then have "spec_integer True v = Some d" by (simp add: ParseInt_spec)
        with Inr show ?thesis by (simp add: sw sp)
      next
        case (Inl e)
        have "spec_integer True v = None"
        proof (cases "spec_integer True v")
          case None
          then show ?thesis .
        next
          case (Some d)
          then have "strconv_ParseInt v = Inr d" by (simp add: ParseInt_spec)
          with Inl show ?thesis by simp
        qed
        with Inl show ?thesis by (simp add: sw sp)
      qed
    qed
  qed
qed

text \<open>The rule at the values of the specification's examples, and at the edge of the integer range.\<close>

theorem buildQMPCommand_switch_rule_witness:
  "runes ''42'' \<noteq> []
   \<and> snd (buildQMPCommand_switch noCaseTable exampleUnmarshal [] (runes ''42'')) = Inr (VInteger 42)
   \<and> snd (buildQMPCommand_switch noCaseTable exampleUnmarshal [] (runes ''42x'')) = Inr (VString (runes ''42x''))
   \<and> snd (buildQMPCommand_switch noCaseTable exampleUnmarshal [] (runes ''TRUE'')) = Inr (VBool True)
   \<and> snd (buildQMPCommand_switch noCaseTable exampleUnmarshal [] (runes ''-9223372036854775808''))
       = Inr (VInteger (- 9223372036854775808))
   \<and> snd (buildQMPCommand_switch noCaseTable exampleUnmarshal [] (runes ''9223372036854775808''))
       = Inr (VString (runes ''9223372036854775808''))
   \<and> snd (buildQMPCommand_switch noCaseTable exampleUnmarshal [] (runes ''{}'')) = Inr (VStructured (JObject []))
   \<and> snd (buildQMPCommand_switch noCaseTable exampleUnmarshal [] (runes ''{bad''))
       = Inl (Errorf (runes ''JSON parsing error: invalid character''))"
proof -
  have ne: "runes ''42'' \<noteq> []" "runes ''42x'' \<noteq> []" "runes ''TRUE'' \<noteq> []"
    "runes ''-9223372036854775808'' \<noteq> []" "runes ''9223372036854775808'' \<noteq> []"
    "runes ''{}'' \<noteq> []" "runes ''{bad'' \<noteq> []"
    by (simp_all add: runes_def)
  have "spec_coerce True noCaseTable exampleUnmarshal (runes ''42'') = Inr (VInteger 42)
    \<and> spec_coerce True noCaseTable exampleUnmarshal (runes ''42x'') = Inr (VString (runes ''42x''))
    \<and> spec_coerce True noCaseTable exampleUnmarshal (runes ''TRUE'') = Inr (VBool True)
    \<and> spec_coerce True noCaseTable exampleUnmarshal (runes ''-9223372036854775808'')
        = Inr (VInteger (- 9223372036854775808))
    \<and> spec_coerce True noCaseTable exampleUnmarshal (runes ''9223372036854775808'')
        = Inr (VString (runes ''9223372036854775808''))
    \<and> spec_coerce True noCaseTable exampleUnmarshal (runes ''{}'') = Inr (VStructured (JObject []))
    \<and> spec_coerce True noCaseTable exampleUnmarshal (runes ''{bad'')
        = Inl (Errorf (runes ''JSON parsing error: invalid character''))"
    by (simp add: spec_coerce_def spec_integer_def strings_ToLower_def unicode_ToLower_def
        exampleUnmarshal_def runes_def isDigit_def decimalValue_def digitStep_def)
  then show ?thesis
    using ne by (simp only: buildQMPCommand_switch_rule [OF ne(1)] buildQMPCommand_switch_rule [OF ne(2)]
        buildQMPCommand_switch_rule [OF ne(3)] buildQMPCommand_switch_rule [OF ne(4)]
        buildQMPCommand_switch_rule [OF ne(5)] buildQMPCommand_switch_rule [OF ne(6)]
        buildQMPCommand_switch_rule [OF ne(7)]) simp
qed

text \<open>
  C1 as stated fails: the value \<^verbatim>\<open>+42\<close> becomes the integer 42, while the rule
  with \<^verbatim>\<open>-\<close> as the only sign makes it the string \<^verbatim>\<open>+42\<close>.
\<close>

theorem buildQMPCommand_switch_plus_counterexample:
  "snd (buildQMPCommand_switch noCaseTable exampleUnmarshal [] (runes ''+42'')) = Inr (VInteger 42)
   \<and> spec_coerce False noCaseTable exampleUnmarshal (runes ''+42'') = Inr (VString (runes ''+42''))"
  by (simp add: buildQMPCommand_switch_def spec_coerce_def spec_integer_def strings_ToLower_def
      unicode_ToLower_def runes_def strconv_ParseInt_def strconv_ParseUint_def maxUint64_def
      isDigit_def decimalValue_def digitStep_def)

section \<open>Properties of the quote trimming\<close>

lemma in_quoteCutset: "(c \<in> set quoteCutset) = isQuoteChar c"
  by (auto simp: quoteCutset_def isQuoteChar_def)

lemma Trim_quotes_eq:
  "strings_Trim s quoteCutset = dropWhile isQuoteChar (rev (dropWhile isQuoteChar (rev s)))"
  by (simp add: strings_Trim_def strings_TrimLeft_def strings_TrimRight_def in_quoteCutset)

lemma Trim_decompose:
  "s = takeWhile isQuoteChar (rev (dropWhile isQuoteChar (rev s)))
       @ strings_Trim s quoteCutset
       @ rev (takeWhile isQuoteChar (rev s))"
proof -
  have "s = rev (takeWhile isQuoteChar (rev s) @ dropWhile isQuoteChar (rev s))"
    by simp
  also have "\<dots> = rev (dropWhile isQuoteChar (rev s)) @ rev (takeWhile isQuoteChar (rev s))"
    by (simp only: rev_append)
  also have "rev (dropWhile isQuoteChar (rev s))
      = takeWhile isQuoteChar (rev (dropWhile isQuoteChar (rev s))) @ strings_Trim s quoteCutset"
    by (simp add: Trim_quotes_eq)
  finally show ?thesis by simp
qed

lemma Trim_hd: "strings_Trim s quoteCutset \<noteq> [] \<Longrightarrow> \<not> isQuoteChar (hd (strings_Trim s quoteCutset))"
  unfolding Trim_quotes_eq by (rule hd_dropWhile)

lemma last_dropWhile: "dropWhile P xs \<noteq> [] \<Longrightarrow> last (dropWhile P xs) = last xs"
  by (induction xs) (auto split: if_splits)

lemma Trim_last: "strings_Trim s quoteCutset \<noteq> [] \<Longrightarrow> \<not> isQuoteChar (last (strings_Trim s quoteCutset))"
proof -
  assume ne: "strings_Trim s quoteCutset \<noteq> []"
  let ?d = "dropWhile isQuoteChar (rev s)"
  have d: "?d \<noteq> []"
  proof
    assume "?d = []"
    then have "strings_Trim s quoteCutset = []"
      unfolding Trim_quotes_eq by (simp only: rev.simps dropWhile.simps)
    with ne show False by simp
  qed
  from ne have "last (strings_Trim s quoteCutset) = last (rev ?d)"
    unfolding Trim_quotes_eq by (rule last_dropWhile)
  also have "\<dots> = hd ?d" using d by (simp add: last_rev)
  finally show ?thesis using hd_dropWhile[OF d] by simp
qed

lemma utf8_RuneLen_pos: "0 < utf8_RuneLen r"
  by (simp add: utf8_RuneLen_def)

lemma len_eq_0: "len s = 0 \<longleftrightarrow> s = []"
  by (cases s) (simp_all add: len_def utf8_RuneLen_def)

lemma FieldsFunc_nonempty: "[] \<notin> set (strings_FieldsFunc f st cur s)"
  by (induction s arbitrary: st cur) (auto simp: Let_def split: prod.splits)

lemma splitString_nonempty: "[] \<notin> set (splitString s sep)"
  by (simp add: splitString_def FieldsFunc_nonempty)

lemma parts_second_nonempty: "length (splitString arg sep) = 2 \<Longrightarrow> len (splitString arg sep ! 1) \<noteq> 0"
proof -
  assume l: "length (splitString arg sep) = 2"
  then have "splitString arg sep ! 1 \<in> set (splitString arg sep)" by simp
  with splitString_nonempty[of arg sep] have "splitString arg sep ! 1 \<noteq> []" by metis
  then show ?thesis by (simp add: len_eq_0)
qed

lemma loop_single:
  assumes "length (splitString arg 0x3D) = 2"
  shows "buildQMPCommand_loop caseTable unmarshal out m [arg] =
           (case buildQMPCommand_switch caseTable unmarshal out
                   (strings_Trim (splitString arg 0x3D ! 1) quoteCutset) of
              (out1, Inl e) \<Rightarrow> (out1, Inl e)
            | (out1, Inr val) \<Rightarrow> (out1, Inr (m(splitString arg 0x3D ! 0 \<mapsto> val))))"
  using assms parts_second_nonempty[OF assms]
  by (simp add: Let_def split: prod.splits sum.splits)

text \<open>
  C4, as amended. The value part of a key=value token loses every leading and every
  trailing ASCII single or double quote before coercion, whether or not the
  quotes match and however many there are: the raw value is the trimmed value
  between two runs of quote characters, and a non-empty trimmed value neither starts
  nor ends with a quote character. The switch is applied to the trimmed value.
\<close>

theorem Trim_strips_all_quotes:
  "(\<exists>pre post. raw = pre @ strings_Trim raw quoteCutset @ post
        \<and> list_all isQuoteChar pre \<and> list_all isQuoteChar post)
   \<and> (strings_Trim raw quoteCutset \<noteq> [] \<longrightarrow>
        \<not> isQuoteChar (hd (strings_Trim raw quoteCutset))
        \<and> \<not> isQuoteChar (last (strings_Trim raw quoteCutset)))
   \<and> (length (splitString arg 0x3D) = 2 \<longrightarrow>
        buildQMPCommand_loop caseTable unmarshal out m [arg] =
          (case buildQMPCommand_switch caseTable unmarshal out
                  (strings_Trim (splitString arg 0x3D ! 1) quoteCutset) of
             (out1, Inl e) \<Rightarrow> (out1, Inl e)
           | (out1, Inr val) \<Rightarrow> (out1, Inr (m(splitString arg 0x3D ! 0 \<mapsto> val)))))"
proof -
  let ?pre = "takeWhile isQuoteChar (rev (dropWhile isQuoteChar (rev raw)))"
  let ?post = "rev (takeWhile isQuoteChar (rev raw))"
  have "raw = ?pre @ strings_Trim raw quoteCutset @ ?post"
    by (rule Trim_decompose)
  moreover have "list_all isQuoteChar ?pre"
    by (simp add: list_all_iff) (metis set_takeWhileD)
  moreover have "list_all isQuoteChar ?post"
    by (simp add: list_all_iff) (metis set_takeWhileD)
  ultimately have "\<exists>pre post. raw = pre @ strings_Trim raw quoteCutset @ post
        \<and> list_all isQuoteChar pre \<and> list_all isQuoteChar post"
    by blast
  then show ?thesis
    using Trim_hd[of raw] Trim_last[of raw] loop_single[of arg caseTable unmarshal out m]
    by blast
qed

text \<open>A value in two layers of quotes, the outer one double and the inner one single.\<close>

theorem Trim_strips_all_quotes_witness:
  "strings_Trim ([0x22, 0x27] @ runes ''x'' @ [0x27, 0x22]) quoteCutset = runes ''x''
   \<and> length (splitString (runes ''a=\"'' @ [0x27] @ runes ''x'' @ [0x27, 0x22]) 0x3D) = 2
   \<and> buildQMPCommand_loop noCaseTable exampleUnmarshal [] Map.empty
        [runes ''a=\"'' @ [0x27] @ runes ''x'' @ [0x27, 0x22]]
       = ([], Inr [runes ''a'' \<mapsto> VString (runes ''x'')])"
proof -
  have l: "length (splitString (runes ''a=\"'' @ [0x27] @ runes ''x'' @ [0x27, 0x22]) 0x3D) = 2"
    by (simp add: splitString_def splitString_f_def Quotation_Mark_def runes_def)
  have t: "strings_Trim ([0x22, 0x27] @ runes ''x'' @ [0x27, 0x22]) quoteCutset = runes ''x''"
    by (simp add: strings_Trim_def strings_TrimLeft_def strings_TrimRight_def quoteCutset_def runes_def)
  have p: "splitString (runes ''a=\"'' @ [0x27] @ runes ''x'' @ [0x27, 0x22]) 0x3D
             = [runes ''a'', [0x22, 0x27] @ runes ''x'' @ [0x27, 0x22]]"
    by (simp add: splitString_def splitString_f_def Quotation_Mark_def runes_def)
  have s: "buildQMPCommand_switch noCaseTable exampleUnmarshal [] (runes ''x'')
             = ([], Inr (VString (runes ''x'')))"
    by (simp add: buildQMPCommand_switch_def strings_ToLower_def unicode_ToLower_def runes_def
        strconv_ParseInt_def strconv_ParseUint_def)
  from Trim_strips_all_quotes[of "[0x22, 0x27] @ runes ''x'' @ [0x27, 0x22]"
      "runes ''a=\"'' @ [0x27] @ runes ''x'' @ [0x27, 0x22]" noCaseTable exampleUnmarshal "[]" Map.empty] l
  have "buildQMPCommand_loop noCaseTable exampleUnmarshal [] Map.empty
          [runes ''a=\"'' @ [0x27] @ runes ''x'' @ [0x27, 0x22]]
        = ([], Inr [runes ''a'' \<mapsto> VString (runes ''x'')])"
    by (simp only: p nth_Cons_0 nth_Cons_Suc One_nat_def t s) simp
  with l t show ?thesis by simp
qed

text \<open>
  C4 as stated fails: the value \<^verbatim>\<open>"abc'\<close> has no matching pair of quotes around
  it, and stripping one matching layer would keep it whole; the code trims both
  edge quotes and stores \<^verbatim>\<open>abc\<close>.
\<close>

theorem Trim_nonmatching_counterexample:
  "strings_Trim ([0x22] @ runes ''abc'' @ [0x27]) quoteCutset = runes ''abc''
   \<and> spec_stripQuotes ([0x22] @ runes ''abc'' @ [0x27]) = [0x22] @ runes ''abc'' @ [0x27]
   \<and> buildQMPCommand noCaseTable exampleUnmarshal [] (runes ''cmd a=\"abc'' @ [0x27])
       = ([], Inr \<lparr>Name = runes ''cmd'', Arguments = [runes ''a'' \<mapsto> VString (runes ''abc'')]\<rparr>)"
  by (simp add: buildQMPCommand_def splitString_def splitString_f_def Quotation_Mark_def
      unicode_IsSpace_def runes_def len_def utf8_RuneLen_def strings_Trim_def strings_TrimLeft_def
      strings_TrimRight_def quoteCutset_def spec_stripQuotes_def buildQMPCommand_switch_def
      strings_ToLower_def unicode_ToLower_def noCaseTable_def strconv_ParseInt_def
      strconv_ParseUint_def Let_def)

section \<open>Properties of the command builder\<close>

lemma switch_out:
  "buildQMPCommand_switch caseTable unmarshal out v =
     (out @ fst (buildQMPCommand_switch caseTable unmarshal [] v),
      snd (buildQMPCommand_switch caseTable unmarshal [] v))"
  by (simp add: buildQMPCommand_switch_def Let_def split: sum.split)

lemma loop_Cons_good:
  assumes "length (splitString arg 0x3D) = 2"
  shows "buildQMPCommand_loop caseTable unmarshal out m (arg # rest) =
           (case coerced caseTable unmarshal arg of
              Inl e \<Rightarrow> (out @ fst (buildQMPCommand_switch caseTable unmarshal [] (argValue arg)), Inl e)
            | Inr val \<Rightarrow>
                buildQMPCommand_loop caseTable unmarshal
                  (out @ fst (buildQMPCommand_switch caseTable unmarshal [] (argValue arg)))
                  (m(argKey arg \<mapsto> val)) rest)"
proof -
  obtain o1 r where sw0: "buildQMPCommand_switch caseTable unmarshal [] (argValue arg) = (o1, r)"
    by fastforce
  have sw: "buildQMPCommand_switch caseTable unmarshal out
              (strings_Trim (splitString arg 0x3D ! 1) quoteCutset) = (out @ o1, r)"
    using sw0 switch_out[of caseTable unmarshal out "argValue arg"] by (simp add: argValue_def)
  have unfold: "buildQMPCommand_loop caseTable unmarshal out m (arg # rest) =
          (case r of
             Inl e \<Rightarrow> (out @ o1, Inl e)
           | Inr val \<Rightarrow> buildQMPCommand_loop caseTable unmarshal (out @ o1) (m(splitString arg 0x3D ! 0 \<mapsto> val)) rest)"
    using assms parts_second_nonempty[OF assms]
    by (simp add: Let_def sw del: One_nat_def)
  show ?thesis
    unfolding unfold by (cases r) (simp_all add: coerced_def sw0 argKey_def)
qed

lemma loop_Cons_bad:
  "length (splitString arg 0x3D) \<noteq> 2 \<Longrightarrow>
   buildQMPCommand_loop caseTable unmarshal out m (arg # rest) = (out, Inl ErrBadCommandFormat)"
  by simp



lemma argMap_Cons:
  "m(argKey a \<mapsto> projr (coerced caseTable unmarshal a)) ++ argMap caseTable unmarshal args
     = m ++ argMap caseTable unmarshal (a # args)"
  by (simp add: argMap_def argPair_def map_add_def fun_eq_iff split: option.split)

lemma loop_accepts:
  assumes "list_all (\<lambda>a. length (splitString a 0x3D) = 2) args"
      and "list_all (accepted caseTable unmarshal) args"
  shows "snd (buildQMPCommand_loop caseTable unmarshal out m args) = Inr (m ++ argMap caseTable unmarshal args)"
  using assms
proof (induction args arbitrary: out m)
  case Nil
  show ?case by (simp add: argMap_def)
next
  case (Cons a args)
  from Cons.prems have two: "length (splitString a 0x3D) = 2" by simp
  from Cons.prems obtain val where val: "coerced caseTable unmarshal a = Inr val"
    by (cases "coerced caseTable unmarshal a") (simp_all add: accepted_def)
  from Cons.prems have rest: "list_all (\<lambda>a. length (splitString a 0x3D) = 2) args"
    "list_all (accepted caseTable unmarshal) args" by simp_all
  have "snd (buildQMPCommand_loop caseTable unmarshal out m (a # args))
        = Inr (m(argKey a \<mapsto> val) ++ argMap caseTable unmarshal args)"
    by (simp only: loop_Cons_good[OF two] val sum.case) (rule Cons.IH[OF rest])
  also have "m(argKey a \<mapsto> val) ++ argMap caseTable unmarshal args
             = m ++ argMap caseTable unmarshal (a # args)"
    using argMap_Cons[of m a caseTable unmarshal args] by (simp only: val sum.sel)
  finally show ?case .
qed

lemma loop_Inr_complete:
  "snd (buildQMPCommand_loop caseTable unmarshal out m args) = Inr m1 \<Longrightarrow>
     list_all (\<lambda>a. length (splitString a 0x3D) = 2) args
     \<and> list_all (accepted caseTable unmarshal) args"
proof (induction args arbitrary: out m)
  case Nil
  show ?case by simp
next
  case (Cons a args)
  show ?case
  proof (cases "length (splitString a 0x3D) = 2")
    case False
    from Cons.prems show ?thesis by (simp only: loop_Cons_bad[OF False]) simp
  next
    case True
    show ?thesis
    proof (cases "coerced caseTable unmarshal a")
      case (Inl e)
      with Cons.prems show ?thesis by (simp only: loop_Cons_good[OF True]) simp
    next
      case (Inr val)
      with Cons.prems have "snd (buildQMPCommand_loop caseTable unmarshal
                  (out @ fst (buildQMPCommand_switch caseTable unmarshal [] (argValue a)))
                  (m(argKey a \<mapsto> val)) args) = Inr m1"
        by (simp only: loop_Cons_good[OF True] sum.case)
      from Cons.IH[OF this] True Inr show ?thesis by (simp add: accepted_def)
    qed
  qed
qed

text \<open>
  The loop gets through a list of argument tokens exactly when each of them has two
  parts and an accepted value.
\<close>

lemma loop_succeeds_iff:
  "(\<exists>out1 m1. buildQMPCommand_loop caseTable unmarshal out m pre = (out1, Inr m1)) \<longleftrightarrow>
     list_all (\<lambda>a. length (splitString a 0x3D) = 2) pre \<and> list_all (accepted caseTable unmarshal) pre"
proof
  assume "\<exists>out1 m1. buildQMPCommand_loop caseTable unmarshal out m pre = (out1, Inr m1)"
  then obtain out1 m1 where "buildQMPCommand_loop caseTable unmarshal out m pre = (out1, Inr m1)"
    by (elim exE)
  then have "snd (buildQMPCommand_loop caseTable unmarshal out m pre) = Inr m1" by simp
  then show "list_all (\<lambda>a. length (splitString a 0x3D) = 2) pre \<and> list_all (accepted caseTable unmarshal) pre"
    by (rule loop_Inr_complete)
next
  assume "list_all (\<lambda>a. length (splitString a 0x3D) = 2) pre \<and> list_all (accepted caseTable unmarshal) pre"
  then have "snd (buildQMPCommand_loop caseTable unmarshal out m pre)
               = Inr (m ++ argMap caseTable unmarshal pre)"
    by (simp add: loop_accepts)
  then have "buildQMPCommand_loop caseTable unmarshal out m pre
               = (fst (buildQMPCommand_loop caseTable unmarshal out m pre), Inr (m ++ argMap caseTable unmarshal pre))"
    by (metis prod.collapse)
  then show "\<exists>out1 m1. buildQMPCommand_loop caseTable unmarshal out m pre = (out1, Inr m1)"
    by (intro exI)
qed

lemma dom_argMap: "dom (argMap caseTable unmarshal args) = argKey ` set args"
  by (simp add: argMap_def dom_map_of_conv_image_fst image_image argPair_def)

lemma argMap_last:
  assumes "argKey a \<notin> argKey ` set post"
  shows "argMap caseTable unmarshal (pre @ a # post) (argKey a) = Some (projr (coerced caseTable unmarshal a))"
proof -
  have "map_of (rev (map (argPair caseTable unmarshal) post)) (argKey a) = None"
    using assms by (simp add: map_of_eq_None_iff image_image argPair_def)
  then show ?thesis
    by (simp add: argMap_def map_add_def argPair_def)
qed

lemma argPair_keys: "map fst (rev (map (argPair caseTable unmarshal) xs)) = rev (map argKey xs)"
  by (induction xs) (simp_all add: argPair_def)

lemma argMap_permute:
  assumes "mset args' = mset args" "distinct (map argKey args)"
  shows "argMap caseTable unmarshal args' = argMap caseTable unmarshal args"
proof -
  have "mset (map argKey args') = mset (map argKey args)"
    using assms(1) by (metis mset_map)
  then have d': "distinct (map argKey args')"
    using assms(2) by (metis mset_eq_imp_distinct_iff)
  have "set args' = set args" using assms(1) by (rule mset_eq_setD)
  then have "set (rev (map (argPair caseTable unmarshal) args')) = set (rev (map (argPair caseTable unmarshal) args))"
    by simp
  moreover have "distinct (map fst (rev (map (argPair caseTable unmarshal) args')))"
    using d' by (simp only: argPair_keys distinct_rev)
  moreover have "distinct (map fst (rev (map (argPair caseTable unmarshal) args)))"
    using assms(2) by (simp only: argPair_keys distinct_rev)
  ultimately show ?thesis
    unfolding argMap_def by (simp only: map_of_inject_set)
qed

lemma ToLower_hd:
  "v \<noteq> [] \<Longrightarrow> hd (strings_ToLower caseTable v) = unicode_ToLower caseTable (hd v)"
  by (cases v) (simp_all add: strings_ToLower_def)

lemma structured_not_bool:
  assumes "v \<noteq> []" "hd v = 0x7B \<or> hd v = 0x5B"
  shows "strings_ToLower caseTable v \<noteq> runes ''true'' \<and> strings_ToLower caseTable v \<noteq> runes ''false''"
proof -
  from assms have "hd (strings_ToLower caseTable v) = hd v"
    by (auto simp: ToLower_hd unicode_ToLower_def)
  moreover have "hd (runes ''true'') = 0x74" "hd (runes ''false'') = 0x66"
    by (simp_all add: runes_def)
  ultimately show ?thesis using assms(2) by auto
qed


text \<open>
  An argument token is accepted when its trimmed value is not empty and, if it begins
  with \<^verbatim>\<open>{\<close> or \<^verbatim>\<open>[\<close>, decodes.
\<close>

lemma accepted_iff:
  "accepted caseTable unmarshal arg \<longleftrightarrow>
     argValue arg \<noteq> []
     \<and> (hd (argValue arg) = 0x7B \<or> hd (argValue arg) = 0x5B \<longrightarrow> \<not> isl (unmarshal (argValue arg)))"
proof (cases "argValue arg = []")
  case True
  then show ?thesis by (simp add: accepted_def coerced_def switch_empty_panics)
next
  case ne: False
  show ?thesis
  proof (cases "hd (argValue arg) = 0x7B \<or> hd (argValue arg) = 0x5B")
    case True
    from structured_not_bool[OF ne True, of caseTable] ne True show ?thesis
      by (cases "unmarshal (argValue arg)")
         (simp_all add: accepted_def coerced_def buildQMPCommand_switch_def Let_def)
  next
    case False
    with ne show ?thesis
      by (cases "strconv_ParseInt (argValue arg)")
         (simp_all add: accepted_def coerced_def buildQMPCommand_switch_def)
  qed
qed


lemma buildQMPCommand_snd:
  "snd (buildQMPCommand caseTable unmarshal out cmdline) =
     (if splitString cmdline 0x20 = [] then Inl ErrBadCommandFormat
      else (case snd (buildQMPCommand_loop caseTable unmarshal out Map.empty (tl (splitString cmdline 0x20))) of
              Inl e \<Rightarrow> Inl e
            | Inr m \<Rightarrow> Inr \<lparr>Name = hd (splitString cmdline 0x20), Arguments = m\<rparr>))"
  by (simp add: buildQMPCommand_def Let_def split: prod.split sum.split)


text \<open>The definitions that evaluating the builder on a concrete line unfolds.\<close>

lemmas eval_defs =
  buildQMPCommand_def splitString_def splitString_f_def Quotation_Mark_def unicode_IsSpace_def
  runes_def len_def utf8_RuneLen_def strings_Trim_def strings_TrimLeft_def strings_TrimRight_def
  quoteCutset_def buildQMPCommand_switch_def strings_ToLower_def unicode_ToLower_def
  noCaseTable_def strconv_ParseInt_def strconv_ParseUint_def exampleUnmarshal_def Let_def
  maxUint64_def argKey_def argValue_def wellFormedArg_def coerced_def accepted_def







text \<open>
  C2, as amended. For a well-formed line \<^verbatim>\<open>name k1=v1 ... kN=vN\<close> in which every
  value is accepted by the switch (it is not empty after trimming, and when it begins
  with \<^verbatim>\<open>{\<close> or \<^verbatim>\<open>[\<close> it decodes: \<open>accepted_iff\<close>), the builder returns a command whose name
  is the first token, which is not empty, and whose map has exactly the keys of the
  line, each with the value the switch gives its last occurrence; a line with the
  same name and a permutation of the argument tokens gives the same command when the
  keys are distinct.
\<close>

theorem buildQMPCommand_wellformed:
  assumes tokens: "splitString cmdline 0x20 = name # args"
      and wf: "list_all wellFormedArg args"
      and acc: "list_all (accepted caseTable unmarshal) args"
  shows "\<exists>out1 cmd. buildQMPCommand caseTable unmarshal out cmdline = (out1, Inr cmd)
           \<and> Name cmd = name \<and> name \<noteq> []
           \<and> dom (Arguments cmd) = argKey ` set args
           \<and> (\<forall>pre a post. args = pre @ a # post \<and> argKey a \<notin> argKey ` set post \<longrightarrow>
                 (\<exists>v. Arguments cmd (argKey a) = Some v \<and> coerced caseTable unmarshal a = Inr v))
           \<and> (\<forall>cmdline' args' out'.
                 splitString cmdline' 0x20 = name # args' \<and> mset args' = mset args
                 \<and> distinct (map argKey args) \<longrightarrow>
                 snd (buildQMPCommand caseTable unmarshal out' cmdline') = Inr cmd)"
proof -
  let ?cmd = "\<lparr>Name = name, Arguments = argMap caseTable unmarshal args\<rparr>"
  have two: "list_all (\<lambda>a. length (splitString a 0x3D) = 2) xs" if "list_all wellFormedArg xs" for xs
    using that by (simp add: list_all_iff wellFormedArg_def)
  have build: "snd (buildQMPCommand caseTable unmarshal out' cmdline')
                 = Inr \<lparr>Name = name, Arguments = argMap caseTable unmarshal args'\<rparr>"
    if "splitString cmdline' 0x20 = name # args'" "list_all wellFormedArg args'"
       "list_all (accepted caseTable unmarshal) args'" for cmdline' args' out'
    using that loop_accepts[OF two[OF that(2)] that(3), of out' Map.empty]
    by (simp add: buildQMPCommand_snd)
  have "snd (buildQMPCommand caseTable unmarshal out cmdline) = Inr ?cmd"
    by (rule build[OF tokens wf acc])
  then have 1: "buildQMPCommand caseTable unmarshal out cmdline
             = (fst (buildQMPCommand caseTable unmarshal out cmdline), Inr ?cmd)"
    by (metis prod.collapse)
  have "name \<in> set (splitString cmdline 0x20)" by (simp add: tokens)
  with splitString_nonempty[of cmdline "0x20"] have 2: "name \<noteq> []" by metis
  have 3: "dom (Arguments ?cmd) = argKey ` set args" by (simp add: dom_argMap)
  have 4: "\<exists>v. Arguments ?cmd (argKey a) = Some v \<and> coerced caseTable unmarshal a = Inr v"
    if "args = pre @ a # post" "argKey a \<notin> argKey ` set post" for pre a post
  proof -
    from acc that(1) have "accepted caseTable unmarshal a" by simp
    then have "coerced caseTable unmarshal a = Inr (projr (coerced caseTable unmarshal a))"
      by (simp add: accepted_def)
    with argMap_last[OF that(2), of caseTable unmarshal pre] that(1) show ?thesis by simp
  qed
  have 5: "snd (buildQMPCommand caseTable unmarshal out' cmdline') = Inr ?cmd"
    if "splitString cmdline' 0x20 = name # args'" "mset args' = mset args" "distinct (map argKey args)"
    for cmdline' args' out'
  proof -
    from that(2) have "set args' = set args" by (rule mset_eq_setD)
    with wf acc have "list_all wellFormedArg args'" "list_all (accepted caseTable unmarshal) args'"
      by (simp_all add: list_all_iff)
    from build[OF that(1) this] argMap_permute[OF that(2,3), of caseTable unmarshal]
    show ?thesis by simp
  qed
  from 1 2 3 4 5 show ?thesis
    by (intro exI[of _ "fst (buildQMPCommand caseTable unmarshal out cmdline)"] exI[of _ ?cmd]) auto
qed

text \<open>A repeated key, where the last value wins, and two arguments in both orders.\<close>

theorem buildQMPCommand_wellformed_witness:
  "splitString (runes ''cmd a=1 a=2'') 0x20 = runes ''cmd'' # [runes ''a=1'', runes ''a=2'']
   \<and> list_all wellFormedArg [runes ''a=1'', runes ''a=2'']
   \<and> list_all (accepted noCaseTable exampleUnmarshal) [runes ''a=1'', runes ''a=2'']
   \<and> (\<exists>out1 cmd. buildQMPCommand noCaseTable exampleUnmarshal [] (runes ''cmd a=1 a=2'') = (out1, Inr cmd)
         \<and> Name cmd = runes ''cmd'' \<and> dom (Arguments cmd) = {runes ''a''}
         \<and> Arguments cmd (runes ''a'') = Some (VInteger 2))
   \<and> splitString (runes ''cmd a=1 b=true'') 0x20 = runes ''cmd'' # [runes ''a=1'', runes ''b=true'']
   \<and> splitString (runes ''cmd b=true a=1'') 0x20 = runes ''cmd'' # [runes ''b=true'', runes ''a=1'']
   \<and> snd (buildQMPCommand noCaseTable exampleUnmarshal [] (runes ''cmd b=true a=1''))
       = snd (buildQMPCommand noCaseTable exampleUnmarshal [] (runes ''cmd a=1 b=true''))"
proof -
  have t: "splitString (runes ''cmd a=1 a=2'') 0x20 = runes ''cmd'' # [runes ''a=1'', runes ''a=2'']"
    by (simp add: eval_defs)
  have wf: "list_all wellFormedArg [runes ''a=1'', runes ''a=2'']"
    by (simp add: eval_defs)
  have acc: "list_all (accepted noCaseTable exampleUnmarshal) [runes ''a=1'', runes ''a=2'']"
    by (simp add: eval_defs)
  have k: "argKey (runes ''a=1'') = runes ''a''" "argKey (runes ''a=2'') = runes ''a''"
    "argKey (runes ''b=true'') = runes ''b''"
    by (simp_all add: eval_defs)
  have c: "coerced noCaseTable exampleUnmarshal (runes ''a=2'') = Inr (VInteger 2 :: json argval)"
    by (simp add: eval_defs)
  obtain out1 cmd where b: "buildQMPCommand noCaseTable exampleUnmarshal [] (runes ''cmd a=1 a=2'') = (out1, Inr cmd)"
    and n: "Name cmd = runes ''cmd''"
    and "runes ''cmd'' \<noteq> []"
    and d: "dom (Arguments cmd) = argKey ` set [runes ''a=1'', runes ''a=2'']"
    and last: "\<forall>pre a post. [runes ''a=1'', runes ''a=2''] = pre @ a # post \<and> argKey a \<notin> argKey ` set post \<longrightarrow>
                 (\<exists>v. Arguments cmd (argKey a) = Some v \<and> coerced noCaseTable exampleUnmarshal a = Inr v)"
    and "\<forall>cmdline' args' out'.
                 splitString cmdline' 0x20 = runes ''cmd'' # args' \<and> mset args' = mset [runes ''a=1'', runes ''a=2'']
                 \<and> distinct (map argKey [runes ''a=1'', runes ''a=2'']) \<longrightarrow>
                 snd (buildQMPCommand noCaseTable exampleUnmarshal out' cmdline') = Inr cmd"
    using buildQMPCommand_wellformed[OF t wf acc, of "[]"] by (elim exE conjE) (rule that)
  from last[rule_format, of "[runes ''a=1'']" "runes ''a=2''" "[]"] c k
  have v: "Arguments cmd (runes ''a'') = Some (VInteger 2)" by simp
  from d k have d': "dom (Arguments cmd) = {runes ''a''}" by simp
  have t1: "splitString (runes ''cmd a=1 b=true'') 0x20 = runes ''cmd'' # [runes ''a=1'', runes ''b=true'']"
    by (simp add: eval_defs)
  have t2: "splitString (runes ''cmd b=true a=1'') 0x20 = runes ''cmd'' # [runes ''b=true'', runes ''a=1'']"
    by (simp add: eval_defs)
  have wf1: "list_all wellFormedArg [runes ''a=1'', runes ''b=true'']"
    by (simp add: eval_defs)
  have acc1: "list_all (accepted noCaseTable exampleUnmarshal) [runes ''a=1'', runes ''b=true'']"
    by (simp add: eval_defs)
  have dist: "distinct (map argKey [runes ''a=1'', runes ''b=true''])"
    by (simp add: k) (simp add: runes_def)
  obtain out2 cmd2 where b2: "buildQMPCommand noCaseTable exampleUnmarshal [] (runes ''cmd a=1 b=true'') = (out2, Inr cmd2)"
    and "Name cmd2 = runes ''cmd''"
    and "runes ''cmd'' \<noteq> []"
    and "dom (Arguments cmd2) = argKey ` set [runes ''a=1'', runes ''b=true'']"
    and "\<forall>pre a post. [runes ''a=1'', runes ''b=true''] = pre @ a # post \<and> argKey a \<notin> argKey ` set post \<longrightarrow>
                 (\<exists>v. Arguments cmd2 (argKey a) = Some v \<and> coerced noCaseTable exampleUnmarshal a = Inr v)"
    and perm: "\<forall>cmdline' args' out'.
                 splitString cmdline' 0x20 = runes ''cmd'' # args' \<and> mset args' = mset [runes ''a=1'', runes ''b=true'']
                 \<and> distinct (map argKey [runes ''a=1'', runes ''b=true'']) \<longrightarrow>
                 snd (buildQMPCommand noCaseTable exampleUnmarshal out' cmdline') = Inr cmd2"
    using buildQMPCommand_wellformed[OF t1 wf1 acc1, of "[]"] by (elim exE conjE) (rule that)
  have m: "mset [runes ''b=true'', runes ''a=1''] = mset [runes ''a=1'', runes ''b=true'']"
    by (simp add: add.commute)
  have "snd (buildQMPCommand noCaseTable exampleUnmarshal [] (runes ''cmd b=true a=1'')) = Inr cmd2"
    using perm[rule_format, of "runes ''cmd b=true a=1''" "[runes ''b=true'', runes ''a=1'']" "[]"] t2 m dist
    by (simp only: simp_thms)
  with b2 have p: "snd (buildQMPCommand noCaseTable exampleUnmarshal [] (runes ''cmd b=true a=1''))
       = snd (buildQMPCommand noCaseTable exampleUnmarshal [] (runes ''cmd a=1 b=true''))"
    by simp
  from b n d' v
  have "\<exists>out1 cmd. buildQMPCommand noCaseTable exampleUnmarshal [] (runes ''cmd a=1 a=2'') = (out1, Inr cmd)
         \<and> Name cmd = runes ''cmd'' \<and> dom (Arguments cmd) = {runes ''a''}
         \<and> Arguments cmd (runes ''a'') = Some (VInteger 2)"
    by (intro exI conjI)
  with t wf acc t1 t2 p show ?thesis by (intro conjI)
qed

text \<open>
  C2 as stated fails: the argument of this line splits into two non-empty parts, and
  the builder returns an error and no command, because the value does not decode.
\<close>

theorem buildQMPCommand_wellformed_counterexample:
  "splitString (runes ''cmd a={bad'') 0x20 = [runes ''cmd'', runes ''a={bad'']
   \<and> wellFormedArg (runes ''a={bad'')
   \<and> buildQMPCommand noCaseTable exampleUnmarshal [] (runes ''cmd a={bad'')
       = (runes ''{bad'' @ [0x0A], Inl (Errorf (runes ''JSON parsing error: invalid character'')))"
  by (simp add: eval_defs)

section \<open>Properties of the HMP wrapping\<close>

lemma inside_quote_run:
  assumes "q \<notin> set line" "q \<noteq> 0"
  shows "strings_FieldsFunc (splitString_f sep) q cur (line @ q # rest)
           = strings_FieldsFunc (splitString_f sep) 0 (cur @ line @ [q]) rest"
  using assms
proof (induction line arbitrary: cur)
  case Nil
  then show ?case by (simp add: splitString_f_def)
next
  case (Cons c line)
  then have "splitString_f sep q c = (False, q)" by (auto simp: splitString_f_def)
  with Cons show ?case by simp
qed

lemma hmp_tokens:
  assumes "0x27 \<notin> set line"
  shows "splitString (executeCommand_cmdline True line) 0x20
           = [runes ''human-monitor-command'', runes ''command-line='' @ 0x27 # line @ [0x27]]"
proof -
  have run: "strings_FieldsFunc (splitString_f 0x20) 0x27 cur (line @ [0x27])
           = [cur @ line @ [0x27]]" for cur
    using inside_quote_run[OF assms, of "0x20" cur "[]"] by simp
  show ?thesis
    by (simp add: executeCommand_cmdline_def splitString_def runes_def splitString_f_def
        Quotation_Mark_def unicode_IsSpace_def run)
qed

lemma hmp_parts:
  assumes "0x27 \<notin> set line"
  shows "splitString (runes ''command-line='' @ 0x27 # line @ [0x27]) 0x3D
           = [runes ''command-line'', 0x27 # line @ [0x27]]"
proof -
  have run: "strings_FieldsFunc (splitString_f 0x3D) 0x27 cur (line @ [0x27])
           = [cur @ line @ [0x27]]" for cur
    using inside_quote_run[OF assms, of "0x3D" cur "[]"] by simp
  show ?thesis
    by (simp add: splitString_def runes_def splitString_f_def Quotation_Mark_def run)
qed

lemma Trim_wrapped:
  assumes "line \<noteq> []" "\<not> isQuoteChar (hd line)" "\<not> isQuoteChar (last line)"
  shows "strings_Trim (0x27 # line @ [0x27]) quoteCutset = line"
proof -
  have q: "isQuoteChar 0x27" by (simp add: isQuoteChar_def)
  from assms(1) obtain x xs where x: "rev line = x # xs"
    by (cases "rev line") auto
  then have "line = rev xs @ [x]" by (metis rev_rev_ident rev.simps(2))
  then have "last line = x" by simp
  with assms(3) x have r: "dropWhile isQuoteChar (rev line @ [0x27]) = rev line @ [0x27]"
    by simp
  from assms have l: "dropWhile isQuoteChar line = line"
    by (cases line) auto
  show ?thesis
    by (simp add: Trim_quotes_eq q r l)
qed

lemma switch_string:
  assumes "line \<noteq> []"
      and "strings_ToLower caseTable line \<noteq> runes ''true''"
      and "strings_ToLower caseTable line \<noteq> runes ''false''"
      and "hd line \<noteq> 0x7B" "hd line \<noteq> 0x5B"
      and "spec_integer True line = None"
  shows "buildQMPCommand_switch caseTable unmarshal out line = (out, Inr (VString line))"
proof -
  have "strconv_ParseInt line \<noteq> Inr d" for d
    using assms(6) ParseInt_spec[of line d] by simp
  then obtain e where "strconv_ParseInt line = Inl e"
    by (cases "strconv_ParseInt line") auto
  with assms show ?thesis by (simp add: buildQMPCommand_switch_def)
qed

text \<open>
  C3, as amended. In HMP mode the line is wrapped in ASCII single quotes and then goes
  through the same tokenizer, trimming and switch as any other line. When the line
  contains no ASCII single quote, is not empty, neither starts nor ends with an
  ASCII double quote, and the switch reads it neither as a boolean, nor as
  structured data, nor as an integer, the command built has the name
  \<^verbatim>\<open>human-monitor-command\<close> and exactly one argument, \<^verbatim>\<open>command-line\<close>,
  whose value is the string holding the line verbatim, spaces, \<^verbatim>\<open>=\<close> and other
  quotation marks included; nothing is printed.
\<close>

theorem hmp_line_forwarded:
  assumes nq: "0x27 \<notin> set line"
      and ne: "line \<noteq> []"
      and edges: "hd line \<noteq> 0x22" "last line \<noteq> 0x22"
      and nb: "strings_ToLower caseTable line \<noteq> runes ''true''"
              "strings_ToLower caseTable line \<noteq> runes ''false''"
      and ns: "hd line \<noteq> 0x7B" "hd line \<noteq> 0x5B"
      and ni: "spec_integer True line = None"
  shows "executeCommand_cmd True caseTable unmarshal out line
           = (out, Inr \<lparr>Name = runes ''human-monitor-command'',
                        Arguments = [runes ''command-line'' \<mapsto> VString line]\<rparr>)"
proof -
  from nq ne have "hd line \<noteq> 0x27" "last line \<noteq> 0x27" by (metis hd_in_set, metis last_in_set)
  with edges have e: "\<not> isQuoteChar (hd line)" "\<not> isQuoteChar (last line)"
    by (simp_all add: isQuoteChar_def)
  have two: "length (splitString (runes ''command-line='' @ 0x27 # line @ [0x27]) 0x3D) = 2"
    by (simp add: hmp_parts[OF nq])
  have "buildQMPCommand_loop caseTable unmarshal out Map.empty [runes ''command-line='' @ 0x27 # line @ [0x27]]
          = (out, Inr [runes ''command-line'' \<mapsto> VString line])"
    by (simp only: loop_single[OF two] hmp_parts[OF nq] nth_Cons_0 nth_Cons_Suc One_nat_def
        Trim_wrapped[OF ne e] switch_string[OF ne nb ns ni]) simp
  then show ?thesis
    by (simp add: executeCommand_cmd_def buildQMPCommand_def hmp_tokens[OF nq])
qed

text \<open>The line \<^verbatim>\<open>info balloon\<close> of the README.\<close>

theorem hmp_line_forwarded_witness:
  "0x27 \<notin> set (runes ''info balloon'') \<and> runes ''info balloon'' \<noteq> []
   \<and> hd (runes ''info balloon'') \<noteq> 0x22 \<and> last (runes ''info balloon'') \<noteq> 0x22
   \<and> strings_ToLower noCaseTable (runes ''info balloon'') \<noteq> runes ''true''
   \<and> strings_ToLower noCaseTable (runes ''info balloon'') \<noteq> runes ''false''
   \<and> hd (runes ''info balloon'') \<noteq> 0x7B \<and> hd (runes ''info balloon'') \<noteq> 0x5B
   \<and> spec_integer True (runes ''info balloon'') = None
   \<and> executeCommand_cmd True noCaseTable exampleUnmarshal [] (runes ''info balloon'')
        = ([], Inr \<lparr>Name = runes ''human-monitor-command'',
                     Arguments = [runes ''command-line'' \<mapsto> VString (runes ''info balloon'')]\<rparr>)"
proof -
  have h: "0x27 \<notin> set (runes ''info balloon'')" "runes ''info balloon'' \<noteq> []"
    "hd (runes ''info balloon'') \<noteq> 0x22" "last (runes ''info balloon'') \<noteq> 0x22"
    "strings_ToLower noCaseTable (runes ''info balloon'') \<noteq> runes ''true''"
    "strings_ToLower noCaseTable (runes ''info balloon'') \<noteq> runes ''false''"
    "hd (runes ''info balloon'') \<noteq> 0x7B" "hd (runes ''info balloon'') \<noteq> 0x5B"
    "spec_integer True (runes ''info balloon'') = None"
    by (simp_all add: runes_def strings_ToLower_def spec_integer_def isDigit_def)
  from hmp_line_forwarded[OF h, of exampleUnmarshal "[]"] h show ?thesis
    by (intro conjI)
qed

text \<open>
  C3 as stated fails: in HMP mode the line \<^verbatim>\<open>true\<close> is sent as the boolean
  true, not as the string holding the line.
\<close>

theorem hmp_line_boolean_counterexample:
  "executeCommand_cmd True noCaseTable exampleUnmarshal [] (runes ''true'')
     = ([], Inr \<lparr>Name = runes ''human-monitor-command'',
                  Arguments = [runes ''command-line'' \<mapsto> VBool True]\<rparr>)"
  by (simp add: executeCommand_cmd_def executeCommand_cmdline_def eval_defs)

text \<open>A line with a single quote and a space after it is cut in two and rejected.\<close>

lemma hmp_line_with_quote_fails:
  "executeCommand_cmd True noCaseTable exampleUnmarshal [] (runes ''it'' @ [0x27] @ runes ''s a'')
     = ([], Inl ErrBadCommandFormat)"
  by (simp add: executeCommand_cmd_def executeCommand_cmdline_def eval_defs)

section \<open>Properties of the completion list\<close>

lemma Split_from_Nil: "strings_Split_from sep cur [] = [cur]"
  by (simp add: strings_Split_from.simps)

lemma Split_from_Cons:
  "strings_Split_from sep cur (c # cs) =
     (if sep \<noteq> [] \<and> prefix sep (c # cs)
      then cur # strings_Split_from sep [] (drop (length sep) (c # cs))
      else strings_Split_from sep (cur @ [c]) cs)"
  by (subst strings_Split_from.simps) simp




lemma infoLoop_acc: "infoLoop acc ls = acc @ infoLoop [] ls"
proof (induction ls arbitrary: acc)
  case Nil
  show ?case by simp
next
  case (Cons l ls)
  show ?case
    using Cons.IH[of "acc @ [runes ''info '' @ strings_Fields l ! 1]"]
          Cons.IH[of "[runes ''info '' @ strings_Fields l ! 1]"] Cons.IH[of acc]
    by simp
qed



lemma cmdlist_Inr:
  assumes "NewHMPShell_cmdlist h i = Inr idx"
  obtains cl where "helpLoop [] (strings_Split h [0x0D, 0x0A]) = Inr cl"
    and "idx = sort_Strings (cl @ infoLoop [] (strings_Split i [0x0D, 0x0A]))"
proof -
  from assms obtain cl where cl: "helpLoop [] (strings_Split h [0x0D, 0x0A]) = Inr cl"
    and idx: "idx = sort_Strings (infoLoop cl (strings_Split i [0x0D, 0x0A]))"
    by (auto simp: NewHMPShell_cmdlist_def split: sum.splits)
  from idx infoLoop_acc[of cl] have "idx = sort_Strings (cl @ infoLoop [] (strings_Split i [0x0D, 0x0A]))"
    by simp
  with cl show ?thesis by (rule that)
qed

text \<open>The definitions that evaluating the two parses on concrete replies unfolds.\<close>

lemmas hmp_eval_defs =
  NewHMPShell_cmdlist_def strings_Split_def Split_from_Nil Split_from_Cons strings_Fields_def
  unicode_IsSpace_def runes_def len_def utf8_RuneLen_def helpName_def strings_Index_def
  sort_Strings_def Let_def

text \<open>
  C7, as amended. The list the completer captures is sorted, and it holds the
  entries of both parses with their multiplicities: nothing removes duplicates.
\<close>

theorem cmdlist_sorted_with_duplicates:
  assumes "NewHMPShell_cmdlist h i = Inr idx"
  shows "sorted idx
         \<and> (\<exists>cl. helpLoop [] (strings_Split h [0x0D, 0x0A]) = Inr cl
                \<and> mset idx = mset cl + mset (infoLoop [] (strings_Split i [0x0D, 0x0A])))"
proof -
  from assms obtain cl where cl: "helpLoop [] (strings_Split h [0x0D, 0x0A]) = Inr cl"
    and idx: "idx = sort_Strings (cl @ infoLoop [] (strings_Split i [0x0D, 0x0A]))"
    by (rule cmdlist_Inr)
  from idx have "sorted idx" by (simp add: sort_Strings_def)
  moreover from idx have "mset idx = mset cl + mset (infoLoop [] (strings_Split i [0x0D, 0x0A]))"
    by (simp add: sort_Strings_def)
  ultimately show ?thesis using cl by blast
qed

text \<open>The same replies: the list is sorted and holds \<^verbatim>\<open>foo\<close> twice.\<close>

theorem cmdlist_sorted_with_duplicates_witness:
  "NewHMPShell_cmdlist (runes ''foo'' @ [0x0D, 0x0A] @ runes ''foo'') []
     = Inr [runes ''foo'', runes ''foo'', runes ''help foo'', runes ''help foo'']
   \<and> sorted [runes ''foo'', runes ''foo'', runes ''help foo'', runes ''help foo'']
   \<and> count (mset [runes ''foo'', runes ''foo'', runes ''help foo'', runes ''help foo'']) (runes ''foo'') = 2"
proof -
  have e: "NewHMPShell_cmdlist (runes ''foo'' @ [0x0D, 0x0A] @ runes ''foo'') []
     = Inr [runes ''foo'', runes ''foo'', runes ''help foo'', runes ''help foo'']"
    by (simp add: hmp_eval_defs)
  from cmdlist_sorted_with_duplicates[OF e]
  have "sorted [runes ''foo'', runes ''foo'', runes ''help foo'', runes ''help foo'']" by blast
  moreover have "count (mset [runes ''foo'', runes ''foo'', runes ''help foo'', runes ''help foo'']) (runes ''foo'') = 2"
    by (simp add: runes_def)
  ultimately show ?thesis using e by (intro conjI)
qed

text \<open>
  C7 as stated fails: a \<^verbatim>\<open>help\<close> reply that lists a command twice gives a list
  with every entry of that command twice.
\<close>

theorem cmdlist_duplicates_counterexample:
  "NewHMPShell_cmdlist (runes ''foo'' @ [0x0D, 0x0A] @ runes ''foo'') []
     = Inr [runes ''foo'', runes ''foo'', runes ''help foo'', runes ''help foo'']
   \<and> \<not> distinct [runes ''foo'', runes ''foo'', runes ''help foo'', runes ''help foo'']"
  by (simp add: hmp_eval_defs)
















text \<open>
  Two replies on which the first parse panics: a line of one space has no first
  field, and a one-letter command whose help text contains a \<^verbatim>\<open>|\<close> has no
  second alias.
\<close>

lemma helpLoop_panics:
  "helpLoop [] [[0x20]] = Inl PanicIndexOutOfRange
   \<and> helpLoop [] [runes ''x a|b''] = Inl PanicIndexOutOfRange"
  by (simp add: hmp_eval_defs)

text \<open>
  C9, as amended. The completer returns exactly the entries that have the lower-cased
  input as a prefix, compared with the entry as stored; so an entry that is its own
  lower-casing is returned whenever it matches the input by prefix without regard
  to case.
\<close>

theorem completer_matches:
  "set (completer caseTable cmdlist line) = {n \<in> set cmdlist. prefix (strings_ToLower caseTable line) n}
   \<and> (n \<in> set cmdlist \<and> strings_ToLower caseTable n = n
        \<and> prefix (strings_ToLower caseTable line) (strings_ToLower caseTable n)
        \<longrightarrow> n \<in> set (completer caseTable cmdlist line))"
  by (auto simp: completer_def strings_HasPrefix_def)

text \<open>The input \<^verbatim>\<open>HE\<close> completes to \<^verbatim>\<open>help\<close>.\<close>

theorem completer_matches_witness:
  "runes ''help'' \<in> set [runes ''help'', runes ''info Show'']
   \<and> strings_ToLower noCaseTable (runes ''help'') = runes ''help''
   \<and> prefix (strings_ToLower noCaseTable (runes ''HE'')) (strings_ToLower noCaseTable (runes ''help''))
   \<and> runes ''help'' \<in> set (completer noCaseTable [runes ''help'', runes ''info Show''] (runes ''HE''))"
proof -
  have h: "runes ''help'' \<in> set [runes ''help'', runes ''info Show'']"
    "strings_ToLower noCaseTable (runes ''help'') = runes ''help''"
    "prefix (strings_ToLower noCaseTable (runes ''HE'')) (strings_ToLower noCaseTable (runes ''help''))"
    by (simp_all add: runes_def strings_ToLower_def unicode_ToLower_def)
  with completer_matches[of noCaseTable "[runes ''help'', runes ''info Show'']" "runes ''HE''" "runes ''help''"]
  show ?thesis by blast
qed

text \<open>
  C9 as stated fails: the entry \<^verbatim>\<open>info Show\<close> matches the input
  \<^verbatim>\<open>info s\<close> by prefix without regard to case, and is not returned.
\<close>

theorem completer_upper_case_counterexample:
  "runes ''info Show'' \<in> set [runes ''help'', runes ''info Show'']
   \<and> prefix (strings_ToLower noCaseTable (runes ''info s'')) (strings_ToLower noCaseTable (runes ''info Show''))
   \<and> runes ''info Show'' \<notin> set (completer noCaseTable [runes ''help'', runes ''info Show''] (runes ''info s''))"
  by (simp add: completer_def strings_HasPrefix_def runes_def strings_ToLower_def unicode_ToLower_def)

end
